theory Spec2Isabelle
  imports Complex_Main
begin

section \<open>JavaScript strings\<close>

text \<open>A JavaScript string is a sequence of UTF-16 code units.\<close>

type_synonym jsstring = "nat list"

text \<open>An ASCII literal as a JavaScript string.\<close>

definition js :: "string \<Rightarrow> jsstring" where
  "js s = map of_char s"

section \<open>JavaScript numbers\<close>

text \<open>
  A Number is an IEEE 754 double. \<open>to_double v\<close> is the natural number \<open>v\<close> rounded to
  53 significant bits, to the nearest with ties to even: what an exact integer becomes
  when it is stored in a Number.
\<close>

fun bit_length :: "nat \<Rightarrow> nat" where
  "bit_length n = (if n = 0 then 0 else Suc (bit_length (n div 2)))"

declare bit_length.simps [simp del]

definition to_double :: "nat \<Rightarrow> nat" where
  "to_double v =
     (if v < 2 ^ 53 then v
      else let e = bit_length v - 53; q = v div 2 ^ e; r = v mod 2 ^ e; half = 2 ^ (e - 1)
           in (if half < r \<or> (r = half \<and> odd q) then q + 1 else q) * 2 ^ e)"

text \<open>
  A non-negative double below 1 is \<open>m / 2^j\<close> with a significand \<open>m < 2^53\<close> and
  \<open>53 \<le> j \<le> 1074\<close> (\<open>j = 1074\<close> for the subnormal ones); the pair \<open>(m, j)\<close> stands for
  it. These are the values \<^verbatim>\<open>Math.random()\<close> can return.
\<close>

type_synonym unit_double = "nat \<times> nat"

definition is_unit_double :: "unit_double \<Rightarrow> bool" where
  "is_unit_double x \<longleftrightarrow> fst x < 2 ^ 53 \<and> 53 \<le> snd x \<and> snd x \<le> 1074"

text \<open>
  \<^verbatim>\<open>Math.floor(x * n)\<close> for such an \<open>x\<close> and an array length \<open>n\<close>: the exact product
  is \<open>m * n / 2^j\<close>; the double product is that value rounded to 53 significant bits,
  which is \<open>to_double (m * n) / 2^j\<close> (the scaling by a power of two is exact: the
  rounded product is at least \<open>2^53 / 2^1074\<close>, a normal number, whenever rounding takes
  place, and below \<open>2^53 * n\<close>); its floor is the integer quotient.
\<close>

definition floor_times :: "unit_double \<Rightarrow> nat \<Rightarrow> nat" where
  "floor_times x n = to_double (fst x * n) div 2 ^ snd x"

section \<open>Account store (store/autoRegister.ts)\<close>

datatype status = pending | registering | getting_code | success | failed | exists_already

text \<open>
  \<^verbatim>\<open>interface RegisterAccount { id; email; status; awsName?; ssoToken?; error? }\<close>.
  An optional property is an \<open>option\<close>; \<open>exists_already\<close> is the status
  \<^verbatim>\<open>'exists'\<close>.
\<close>

record RegisterAccount =
  id :: jsstring
  email :: jsstring
  status :: status
  awsName :: "jsstring option"
  ssoToken :: "jsstring option"
  error :: "jsstring option"

text \<open>
  \<^verbatim>\<open>Partial<RegisterAccount>\<close>: every key may be absent (\<open>None\<close>). For the
  optional properties a present key may still carry \<^verbatim>\<open>undefined\<close>
  (\<open>Some None\<close>), as in \<^verbatim>\<open>awsName: result.awsName\<close>.
\<close>

record AccountUpdates =
  u_id :: "jsstring option"
  u_email :: "jsstring option"
  u_status :: "status option"
  u_awsName :: "jsstring option option"
  u_ssoToken :: "jsstring option option"
  u_error :: "jsstring option option"

text \<open>The object spread \<^verbatim>\<open>{ ...acc, ...updates }\<close>: keys of updates win.\<close>

definition spread :: "RegisterAccount \<Rightarrow> AccountUpdates \<Rightarrow> RegisterAccount" where
  "spread acc updates =
     \<lparr> id = (case u_id updates of None \<Rightarrow> id acc | Some v \<Rightarrow> v),
       email = (case u_email updates of None \<Rightarrow> email acc | Some v \<Rightarrow> v),
       status = (case u_status updates of None \<Rightarrow> status acc | Some v \<Rightarrow> v),
       awsName = (case u_awsName updates of None \<Rightarrow> awsName acc | Some v \<Rightarrow> v),
       ssoToken = (case u_ssoToken updates of None \<Rightarrow> ssoToken acc | Some v \<Rightarrow> v),
       error = (case u_error updates of None \<Rightarrow> error acc | Some v \<Rightarrow> v) \<rparr>"

text \<open>
  \<^verbatim>\<open>accounts: state.accounts.map(acc => acc.id === id ? { ...acc, ...updates } : acc)\<close>
\<close>

definition updateAccountStatus ::
  "jsstring \<Rightarrow> AccountUpdates \<Rightarrow> RegisterAccount list \<Rightarrow> RegisterAccount list" where
  "updateAccountStatus i updates accounts =
     map (\<lambda>acc. if id acc = i then spread acc updates else acc) accounts"

definition no_updates :: AccountUpdates where
  "no_updates = \<lparr> u_id = None, u_email = None, u_status = None,
                    u_awsName = None, u_ssoToken = None, u_error = None \<rparr>"

definition only_status :: "status \<Rightarrow> AccountUpdates" where
  "only_status st = no_updates \<lparr> u_status := Some st \<rparr>"

section \<open>Fingerprint generator (main/fingerprint.ts)\<close>

record viewport =
  width :: nat
  height :: nat

record BrowserFingerprint =
  userAgent :: string
  viewport :: viewport
  locale_id :: string
  timezone :: string
  platform :: string
  deviceScaleFactor :: nat

definition USER_AGENTS :: "string list" where
  "USER_AGENTS =
   [''Mozilla/5.0 (Linux; Android 13; SM-S918B) AppleWebKit/537.36 (KHTML, like Gecko) Chrome/120.0.0.0 Mobile Safari/537.36'',
    ''Mozilla/5.0 (Linux; Android 13; Pixel 7) AppleWebKit/537.36 (KHTML, like Gecko) Chrome/121.0.0.0 Mobile Safari/537.36'',
    ''Mozilla/5.0 (Linux; Android 14; SM-S921B) AppleWebKit/537.36 (KHTML, like Gecko) Chrome/122.0.0.0 Mobile Safari/537.36'',
    ''Mozilla/5.0 (Linux; Android 13; SM-A536B) AppleWebKit/537.36 (KHTML, like Gecko) Chrome/120.0.0.0 Mobile Safari/537.36'',
    ''Mozilla/5.0 (Linux; Android 12; SM-G998B) AppleWebKit/537.36 (KHTML, like Gecko) Chrome/121.0.0.0 Mobile Safari/537.36'',
    ''Mozilla/5.0 (Linux; Android 13; Pixel 6 Pro) AppleWebKit/537.36 (KHTML, like Gecko) Chrome/122.0.0.0 Mobile Safari/537.36'',
    ''Mozilla/5.0 (iPhone; CPU iPhone OS 17_2 like Mac OS X) AppleWebKit/605.1.15 (KHTML, like Gecko) Version/17.2 Mobile/15E148 Safari/604.1'',
    ''Mozilla/5.0 (iPhone; CPU iPhone OS 17_1 like Mac OS X) AppleWebKit/605.1.15 (KHTML, like Gecko) Version/17.1 Mobile/15E148 Safari/604.1'',
    ''Mozilla/5.0 (iPhone; CPU iPhone OS 16_6 like Mac OS X) AppleWebKit/605.1.15 (KHTML, like Gecko) Version/16.6 Mobile/15E148 Safari/604.1'',
    ''Mozilla/5.0 (iPhone; CPU iPhone OS 17_0 like Mac OS X) AppleWebKit/605.1.15 (KHTML, like Gecko) Version/17.0 Mobile/15E148 Safari/604.1'',
    ''Mozilla/5.0 (iPad; CPU OS 17_2 like Mac OS X) AppleWebKit/605.1.15 (KHTML, like Gecko) Version/17.2 Mobile/15E148 Safari/604.1'',
    ''Mozilla/5.0 (iPad; CPU OS 16_6 like Mac OS X) AppleWebKit/605.1.15 (KHTML, like Gecko) Version/16.6 Mobile/15E148 Safari/604.1'']"

definition VIEWPORTS :: "viewport list" where
  "VIEWPORTS =
   [\<lparr>width = 375, height = 667\<rparr>, \<lparr>width = 390, height = 844\<rparr>,
    \<lparr>width = 393, height = 852\<rparr>, \<lparr>width = 414, height = 896\<rparr>,
    \<lparr>width = 428, height = 926\<rparr>, \<lparr>width = 360, height = 640\<rparr>,
    \<lparr>width = 412, height = 915\<rparr>, \<lparr>width = 384, height = 854\<rparr>,
    \<lparr>width = 360, height = 780\<rparr>, \<lparr>width = 768, height = 1024\<rparr>,
    \<lparr>width = 820, height = 1180\<rparr>]"

definition LOCALES :: "string list" where
  "LOCALES = [''en-US'', ''en-GB'', ''zh-CN'', ''zh-TW'', ''ja-JP'', ''ko-KR'',
              ''de-DE'', ''fr-FR'', ''es-ES'']"

definition TIMEZONES :: "string list" where
  "TIMEZONES = [''America/New_York'', ''America/Los_Angeles'', ''America/Chicago'',
                ''Europe/London'', ''Europe/Paris'', ''Europe/Berlin'', ''Asia/Shanghai'',
                ''Asia/Tokyo'', ''Asia/Seoul'', ''Australia/Sydney'']"

definition PLATFORMS :: "string list" where
  "PLATFORMS = [''Linux armv8l'', ''Linux aarch64'', ''iPhone'', ''iPad'']"

definition DEVICE_SCALE_FACTORS :: "nat list" where
  "DEVICE_SCALE_FACTORS = [2, 3]"

text \<open>\<^verbatim>\<open>String.prototype.includes\<close> on ASCII strings.\<close>

fun starts_with :: "'a list \<Rightarrow> 'a list \<Rightarrow> bool" where
  "starts_with s [] = True"
| "starts_with [] (p # ps) = False"
| "starts_with (c # cs) (p # ps) = (c = p \<and> starts_with cs ps)"

fun str_includes :: "'a list \<Rightarrow> 'a list \<Rightarrow> bool" where
  "str_includes [] sub = (sub = [])"
| "str_includes (c # cs) sub = (starts_with (c # cs) sub \<or> str_includes cs sub)"

text \<open>
  \<^verbatim>\<open>array[Math.floor(Math.random() * array.length)]\<close>. The value of
  \<^verbatim>\<open>Math.random()\<close> is the argument \<open>r\<close>, the product is the product of doubles; an
  index outside the array reads \<^verbatim>\<open>undefined\<close>, which is \<open>None\<close> here.
\<close>

definition randomChoice :: "unit_double \<Rightarrow> 'a list \<Rightarrow> 'a option" where
  "randomChoice r array =
     (let i = floor_times r (length array)
      in if i < length array then Some (array ! i) else None)"

definition getPlatformFromUserAgent :: "string \<Rightarrow> string" where
  "getPlatformFromUserAgent ua =
     (if str_includes ua ''iPhone'' then ''iPhone''
      else if str_includes ua ''iPad'' then ''iPad''
      else if str_includes ua ''Android'' then ''Linux armv8l''
      else ''Linux armv8l'')"

text \<open>The five calls of \<^verbatim>\<open>Math.random()\<close> of one generation, in call order.\<close>

record draws =
  d_userAgent :: unit_double
  d_viewport :: unit_double
  d_locale :: unit_double
  d_timezone :: unit_double
  d_scale :: unit_double

definition unit_draws :: "draws \<Rightarrow> bool" where
  "unit_draws d \<longleftrightarrow>
     is_unit_double (d_userAgent d) \<and> is_unit_double (d_viewport d) \<and>
     is_unit_double (d_locale d) \<and> is_unit_double (d_timezone d) \<and>
     is_unit_double (d_scale d)"

definition generateSmartFingerprint :: "draws \<Rightarrow> BrowserFingerprint option" where
  "generateSmartFingerprint d =
     Option.bind (randomChoice (d_userAgent d) USER_AGENTS) (\<lambda>ua.
     let pf = getPlatformFromUserAgent ua in
     Option.bind (randomChoice (d_viewport d) VIEWPORTS) (\<lambda>vp.
     Option.bind (randomChoice (d_locale d) LOCALES) (\<lambda>lc.
     Option.bind (randomChoice (d_timezone d) TIMEZONES) (\<lambda>tz.
     Option.bind (randomChoice (d_scale d) DEVICE_SCALE_FACTORS) (\<lambda>sf.
     Some \<lparr> userAgent = ua, viewport = vp, locale_id = lc, timezone = tz,
            platform = pf, deviceScaleFactor = sf \<rparr>)))))"

definition platform_matches :: "BrowserFingerprint \<Rightarrow> bool" where
  "platform_matches fp \<longleftrightarrow>
     (str_includes (userAgent fp) ''iPhone'' \<longrightarrow> platform fp = ''iPhone'') \<and>
     (str_includes (userAgent fp) ''iPad'' \<longrightarrow> platform fp = ''iPad'') \<and>
     (str_includes (userAgent fp) ''Android'' \<longrightarrow> platform fp = ''Linux armv8l'')"


text \<open>
  Five draws: \<open>0.8333333333333333\<close> (the double \<open>7505999378950826 / 2^53\<close>, whose product
  with 12 rounds up to 10), \<open>0.125\<close>, \<open>0.25\<close>, \<open>0.875\<close> and \<open>0.75\<close>.
\<close>

definition sample_draws :: draws where
  "sample_draws = \<lparr> d_userAgent = (7505999378950826, 53), d_viewport = (1, 56),
                     d_locale = (1, 55), d_timezone = (7, 56), d_scale = (3, 55) \<rparr>"

definition two_accounts :: "RegisterAccount list" where
  "two_accounts =
     [\<lparr> id = js ''a'', email = js ''a@example.com'', status = pending,
        awsName = None, ssoToken = None, error = None \<rparr>,
      \<lparr> id = js ''b'', email = js ''b@example.com'', status = pending,
        awsName = None, ssoToken = None, error = None \<rparr>]"

section \<open>Regular expressions of the source\<close>

text \<open>
  The expressions below are the fragment of ECMAScript regular expressions that the source uses: literals, character
  classes, sequence, alternation, greedy and lazy repetition of a character class, one
  capture group, the assertions \<^verbatim>\<open>^\<close>, \<^verbatim>\<open>$\<close>, \<^verbatim>\<open>\b\<close>, and the flags
  \<^verbatim>\<open>i\<close> and \<^verbatim>\<open>m\<close>. Matching is by backtracking: \<open>rx_match\<close> lists the
  ways an expression can match at a position in the order in which the backtracking
  matcher tries them, so the head of the list is the match that \<^verbatim>\<open>exec\<close> reports.
  Without the \<^verbatim>\<open>u\<close> flag, \<^verbatim>\<open>i\<close> compares code units after upper-casing,
  and never identifies a non-ASCII code unit with an ASCII one; the letters of the
  source's patterns are ASCII or have no case, so upper-casing ASCII letters is all that
  \<open>canonicalize\<close> has to do, and its character classes contain no letters.
\<close>

text \<open>
  \<^verbatim>\<open>\d\<close>, the line terminators, \<^verbatim>\<open>\s\<close> (white space and line terminators) and the
  word characters of \<^verbatim>\<open>\b\<close>.
\<close>

definition is_digit :: "nat \<Rightarrow> bool" where
  "is_digit c \<longleftrightarrow> 48 \<le> c \<and> c \<le> 57"

definition is_line_terminator :: "nat \<Rightarrow> bool" where
  "is_line_terminator c \<longleftrightarrow> c = 10 \<or> c = 13 \<or> c = 0x2028 \<or> c = 0x2029"

definition is_space :: "nat \<Rightarrow> bool" where
  "is_space c \<longleftrightarrow>
     c = 9 \<or> c = 10 \<or> c = 11 \<or> c = 12 \<or> c = 13 \<or> c = 32 \<or> c = 0xA0 \<or> c = 0x1680 \<or>
     (0x2000 \<le> c \<and> c \<le> 0x200A) \<or> c = 0x2028 \<or> c = 0x2029 \<or> c = 0x202F \<or>
     c = 0x205F \<or> c = 0x3000 \<or> c = 0xFEFF"

definition is_word :: "nat \<Rightarrow> bool" where
  "is_word c \<longleftrightarrow> (97 \<le> c \<and> c \<le> 122) \<or> (65 \<le> c \<and> c \<le> 90) \<or> is_digit c \<or> c = 95"

definition canonicalize :: "nat \<Rightarrow> nat" where
  "canonicalize c = (if 97 \<le> c \<and> c \<le> 122 then c - 32 else c)"

text \<open>
  \<open>Star\<close> and \<open>LazyStar\<close> repeat a character class (\<^verbatim>\<open>\s*\<close>, \<^verbatim>\<open>[^>]*\<close>,
  \<^verbatim>\<open>[\s\S]*?\<close>): every starred expression of the source is one. \<open>Group\<close> is the
  capture group 1, \<open>Bol\<close>, \<open>Eol\<close> and \<open>WordB\<close> are \<^verbatim>\<open>^\<close>, \<^verbatim>\<open>$\<close> and \<^verbatim>\<open>\b\<close>.
\<close>

datatype rx =
    Lit jsstring
  | Cls "nat \<Rightarrow> bool"
  | Seq rx rx
  | Alt rx rx
  | Star "nat \<Rightarrow> bool"
  | LazyStar "nat \<Rightarrow> bool"
  | Group rx
  | Bol
  | Eol
  | WordB
  | Eps

record flags =
  ignoreCase :: bool
  multiline :: bool

text \<open>
  A position of the matcher in the input: the code unit before it (none at the start),
  its index, and the input from it on.
\<close>

type_synonym mpos = "nat option \<times> nat \<times> jsstring"

fun lit_match :: "bool \<Rightarrow> jsstring \<Rightarrow> mpos \<Rightarrow> mpos option" where
  "lit_match ic [] st = Some st"
| "lit_match ic (p # ps) (prev, i, []) = None"
| "lit_match ic (p # ps) (prev, i, c # cs) =
     (if (if ic then canonicalize c = canonicalize p else c = p)
      then lit_match ic ps (Some c, Suc i, cs) else None)"

text \<open>The positions after a greedy repetition, longest first; after a lazy one, shortest first.\<close>

fun star_greedy :: "(nat \<Rightarrow> bool) \<Rightarrow> mpos \<Rightarrow> mpos list" where
  "star_greedy p (prev, i, []) = [(prev, i, [])]"
| "star_greedy p (prev, i, c # cs) =
     (if p c then star_greedy p (Some c, Suc i, cs) else []) @ [(prev, i, c # cs)]"

fun star_lazy :: "(nat \<Rightarrow> bool) \<Rightarrow> mpos \<Rightarrow> mpos list" where
  "star_lazy p (prev, i, []) = [(prev, i, [])]"
| "star_lazy p (prev, i, c # cs) =
     (prev, i, c # cs) # (if p c then star_lazy p (Some c, Suc i, cs) else [])"

fun rx_match :: "flags \<Rightarrow> rx \<Rightarrow> mpos \<Rightarrow> jsstring option \<Rightarrow> (mpos \<times> jsstring option) list" where
  "rx_match f (Lit s) st cap =
     (case lit_match (ignoreCase f) s st of None \<Rightarrow> [] | Some st' \<Rightarrow> [(st', cap)])"
| "rx_match f (Cls p) (prev, i, rest) cap =
     (case rest of [] \<Rightarrow> [] | c # cs \<Rightarrow> if p c then [((Some c, Suc i, cs), cap)] else [])"
| "rx_match f (Seq a b) st cap =
     concat (map (\<lambda>(st', cap'). rx_match f b st' cap') (rx_match f a st cap))"
| "rx_match f (Alt a b) st cap = rx_match f a st cap @ rx_match f b st cap"
| "rx_match f (Star p) st cap = map (\<lambda>st'. (st', cap)) (star_greedy p st)"
| "rx_match f (LazyStar p) st cap = map (\<lambda>st'. (st', cap)) (star_lazy p st)"
| "rx_match f (Group r) (prev, i, rest) cap =
     map (\<lambda>((prev', i', rest'), _). ((prev', i', rest'), Some (take (i' - i) rest)))
       (rx_match f r (prev, i, rest) cap)"
| "rx_match f Bol (prev, i, rest) cap =
     (case prev of None \<Rightarrow> [((prev, i, rest), cap)]
      | Some c \<Rightarrow> if multiline f \<and> is_line_terminator c then [((prev, i, rest), cap)] else [])"
| "rx_match f Eol (prev, i, rest) cap =
     (case rest of [] \<Rightarrow> [((prev, i, rest), cap)]
      | c # _ \<Rightarrow> if multiline f \<and> is_line_terminator c then [((prev, i, rest), cap)] else [])"
| "rx_match f WordB (prev, i, rest) cap =
     (let a = (case prev of None \<Rightarrow> False | Some c \<Rightarrow> is_word c);
          b = (case rest of [] \<Rightarrow> False | c # _ \<Rightarrow> is_word c)
      in if a \<noteq> b then [((prev, i, rest), cap)] else [])"
| "rx_match f Eps st cap = [(st, cap)]"

text \<open>
  \<^verbatim>\<open>exec\<close> from a position (\<^verbatim>\<open>lastIndex\<close>): the first index from there on at which
  the expression matches, with the position after the match and the capture.
\<close>

fun rx_search :: "flags \<Rightarrow> rx \<Rightarrow> mpos \<Rightarrow> (nat \<times> mpos \<times> jsstring option) option" where
  "rx_search f r (prev, i, []) =
     (case rx_match f r (prev, i, []) None of
        [] \<Rightarrow> None
      | (st', cap) # _ \<Rightarrow> Some (i, st', cap))"
| "rx_search f r (prev, i, c # cs) =
     (case rx_match f r (prev, i, c # cs) None of
        [] \<Rightarrow> rx_search f r (Some c, Suc i, cs)
      | (st', cap) # _ \<Rightarrow> Some (i, st', cap))"

text \<open>\<^verbatim>\<open>regex.test(text)\<close> of an expression without the \<^verbatim>\<open>g\<close> flag.\<close>

definition rx_test :: "flags \<Rightarrow> rx \<Rightarrow> jsstring \<Rightarrow> bool" where
  "rx_test f r text = (rx_search f r (None, 0, text) \<noteq> None)"

fun seqs :: "rx list \<Rightarrow> rx" where
  "seqs [] = Eps"
| "seqs (r # rs) = Seq r (seqs rs)"

fun alts :: "rx \<Rightarrow> rx list \<Rightarrow> rx" where
  "alts r [] = r"
| "alts r (r' # rs) = Alt r (alts r' rs)"

text \<open>\<^verbatim>\<open>r{n}\<close> and \<^verbatim>\<open>[class]+\<close>.\<close>

definition rep :: "nat \<Rightarrow> rx \<Rightarrow> rx" where
  "rep n r = seqs (replicate n r)"

definition plus :: "(nat \<Rightarrow> bool) \<Rightarrow> rx" where
  "plus p = Seq (Cls p) (Star p)"

definition flags_gi :: flags where
  "flags_gi = \<lparr> ignoreCase = True, multiline = False \<rparr>"

definition flags_gm :: flags where
  "flags_gm = \<lparr> ignoreCase = False, multiline = True \<rparr>"

definition flags_g :: flags where
  "flags_g = \<lparr> ignoreCase = False, multiline = False \<rparr>"

definition flags_i :: flags where
  "flags_i = \<lparr> ignoreCase = True, multiline = False \<rparr>"

section \<open>Verification code extractor (extractCode, in both mail modules)\<close>

text \<open>
  \<^verbatim>\<open>
  const CODE_PATTERNS = [
    /(?:verification\s*code|<U+9A8C><U+8BC1><U+7801>|Your code is|code is)[<U+FF1A>:\s]*(\d{6})/gi,
    /(?:is|<U+4E3A>)[<U+FF1A>:\s]*(\d{6})\b/gi,
    /^\s*(\d{6})\s*$/gm,
    />\s*(\d{6})\s*</g
  ]\<close>
  The two copies of the table (main/mailService.ts and the registration module) are the
  same, and so are the two copies of \<^verbatim>\<open>extractCode\<close>.
\<close>

definition colon_or_space :: "nat \<Rightarrow> bool" where
  "colon_or_space c \<longleftrightarrow> c = 0xFF1A \<or> c = 58 \<or> is_space c"

definition six_digits :: rx where
  "six_digits = Group (rep 6 (Cls is_digit))"

definition CODE_PATTERNS :: "(flags \<times> rx) list" where
  "CODE_PATTERNS =
    [(flags_gi, seqs [alts (seqs [Lit (js ''verification''), Star is_space, Lit (js ''code'')])
                        [Lit [0x9A8C, 0x8BC1, 0x7801], Lit (js ''Your code is''), Lit (js ''code is'')],
                      Star colon_or_space, six_digits]),
     (flags_gi, seqs [Alt (Lit (js ''is'')) (Lit [0x4E3A]), Star colon_or_space, six_digits, WordB]),
     (flags_gm, seqs [Bol, Star is_space, six_digits, Star is_space, Eol]),
     (flags_g, seqs [Lit (js ''>''), Star is_space, six_digits, Star is_space, Lit (js ''<'')])]"

text \<open>
  The result of \<^verbatim>\<open>extractCode\<close>: a code, \<^verbatim>\<open>null\<close>, or no return at all. The loop
  \<^verbatim>\<open>while ((match = pattern.exec(text)) !== null)\<close> repeats the same match for ever when a
  rejected match leaves \<^verbatim>\<open>lastIndex\<close> where it was (an empty match); \<open>Hangs\<close> is that
  outcome.
\<close>

datatype code_result = Code jsstring | Null | Hangs

text \<open>\<^verbatim>\<open>text.slice(start, end)\<close> for \<open>0 \<le> start\<close> and \<open>end \<le> length text\<close>.\<close>

definition js_slice :: "jsstring \<Rightarrow> nat \<Rightarrow> nat \<Rightarrow> jsstring" where
  "js_slice text start end = take (end - start) (drop start text)"

text \<open>
  \<^verbatim>\<open>/^\d{6}$/\<close>, \<^verbatim>\<open>/color[:\s]*[^;]*\d{6}/i\<close>, \<^verbatim>\<open>/rgb|rgba|hsl/i\<close> and
  \<^verbatim>\<open>/\d{7,}/\<close>.
\<close>

definition rx_six_only :: rx where
  "rx_six_only = seqs [Bol, rep 6 (Cls is_digit), Eol]"

definition rx_color :: rx where
  "rx_color = seqs [Lit (js ''color''), Star (\<lambda>c. c = 58 \<or> is_space c), Star (\<lambda>c. c \<noteq> 59),
                    rep 6 (Cls is_digit)]"

definition rx_rgb :: rx where
  "rx_rgb = alts (Lit (js ''rgb'')) [Lit (js ''rgba''), Lit (js ''hsl'')]"

definition rx_seven_digits :: rx where
  "rx_seven_digits = seqs [rep 7 (Cls is_digit), Star is_digit]"

text \<open>
  The four \<^verbatim>\<open>continue\<close> tests on the context of a match:
  \<^verbatim>\<open>context.includes('#' + code)\<close> and the three expressions above.
\<close>

definition excluded :: "jsstring \<Rightarrow> jsstring \<Rightarrow> bool" where
  "excluded context code \<longleftrightarrow>
     str_includes context (35 # code) \<or>
     rx_test flags_i rx_color context \<or>
     rx_test flags_i rx_rgb context \<or>
     rx_test flags_g rx_seven_digits context"

text \<open>
  The match at \<open>index\<close> ending at \<open>e\<close> is returned when
  \<^verbatim>\<open>code && /^\d{6}$/.test(code)\<close> holds and no exclusion applies to
  \<^verbatim>\<open>text.slice(Math.max(0, index - 20), Math.min(text.length, index + match[0].length + 20))\<close>.
\<close>

definition accepted :: "jsstring \<Rightarrow> nat \<Rightarrow> nat \<Rightarrow> jsstring option \<Rightarrow> bool" where
  "accepted text index e cap =
     (case cap of
        None \<Rightarrow> False
      | Some code \<Rightarrow>
          code \<noteq> [] \<and> rx_test flags_g rx_six_only code \<and>
          \<not> excluded (js_slice text (index - 20) (min (length text) (e + 20))) code)"

text \<open>The \<^verbatim>\<open>while\<close> loop over the matches of one pattern, from \<^verbatim>\<open>lastIndex\<close> on.\<close>

function scan_codes :: "flags \<Rightarrow> rx \<Rightarrow> jsstring \<Rightarrow> mpos \<Rightarrow> code_result" where
  "scan_codes f r text (prev, i, rest) =
     (case rx_search f r (prev, i, rest) of
        None \<Rightarrow> Null
      | Some (index, (prev', e, rest'), cap) \<Rightarrow>
          if accepted text index e cap then Code (the cap)
          else if length rest' < length rest then scan_codes f r text (prev', e, rest')
          else Hangs)"
  by pat_completeness auto
termination
  by (relation "measure (\<lambda>(f, r, text, (prev, i, rest)). length rest)") auto

declare scan_codes.simps [simp del]

text \<open>The \<^verbatim>\<open>for\<close> loop over the patterns; each starts at \<^verbatim>\<open>lastIndex = 0\<close>.\<close>

fun try_patterns :: "(flags \<times> rx) list \<Rightarrow> jsstring \<Rightarrow> code_result" where
  "try_patterns [] text = Null"
| "try_patterns ((f, r) # ps) text =
     (case scan_codes f r text (None, 0, text) of
        Null \<Rightarrow> try_patterns ps text
      | res \<Rightarrow> res)"

definition extractCode :: "jsstring \<Rightarrow> code_result" where
  "extractCode text = (if text = [] then Null else try_patterns CODE_PATTERNS text)"

text \<open>An expression every match of which consumes input.\<close>

fun consumes :: "rx \<Rightarrow> bool" where
  "consumes (Lit s) = (s \<noteq> [])"
| "consumes (Cls p) = True"
| "consumes (Seq a b) = (consumes a \<or> consumes b)"
| "consumes (Alt a b) = (consumes a \<and> consumes b)"
| "consumes (Group r) = consumes r"
| "consumes _ = False"

section \<open>HTML to text (htmlToText)\<close>

text \<open>
  \<^verbatim>\<open>text.replace(regex, replacement)\<close> with a \<^verbatim>\<open>g\<close> expression: the matches are
  replaced from left to right, the search going on after each match; after an empty match
  it goes on one code unit further.
\<close>

function replace_all :: "flags \<Rightarrow> rx \<Rightarrow> (jsstring option \<Rightarrow> jsstring) \<Rightarrow> mpos \<Rightarrow> jsstring" where
  "replace_all f r repl (prev, i, []) =
     (case rx_match f r (prev, i, []) None of
        [] \<Rightarrow> []
      | (st', cap) # _ \<Rightarrow> repl cap)"
| "replace_all f r repl (prev, i, c # cs) =
     (case rx_match f r (prev, i, c # cs) None of
        [] \<Rightarrow> c # replace_all f r repl (Some c, Suc i, cs)
      | ((prev', e, rest'), cap) # _ \<Rightarrow>
          if length rest' < length (c # cs)
          then repl cap @ replace_all f r repl (prev', e, rest')
          else repl cap @ c # replace_all f r repl (Some c, Suc i, cs))"
  by pat_completeness auto
termination
  by (relation "measure (\<lambda>(f, r, repl, (prev, i, rest)). length rest)") auto

definition js_replace :: "flags \<Rightarrow> rx \<Rightarrow> (jsstring option \<Rightarrow> jsstring) \<Rightarrow> jsstring \<Rightarrow> jsstring" where
  "js_replace f r repl text = replace_all f r repl (None, 0, text)"

text \<open>
  \<^verbatim>\<open>String.fromCharCode(parseInt(n))\<close> and \<^verbatim>\<open>String.fromCharCode(parseInt(n, 16))\<close> on
  a run of digits: the number the digits denote, rounded to the nearest double (ties to
  even) once it needs more than 53 bits (\<open>to_double\<close>), and taken modulo \<open>2^16\<close>.
\<close>

definition is_hex_digit :: "nat \<Rightarrow> bool" where
  "is_hex_digit c \<longleftrightarrow> is_digit c \<or> (97 \<le> c \<and> c \<le> 102) \<or> (65 \<le> c \<and> c \<le> 70)"

definition digit_value :: "nat \<Rightarrow> nat" where
  "digit_value c = (if is_digit c then c - 48 else if 97 \<le> c then c - 87 else c - 55)"

definition parseInt :: "nat \<Rightarrow> jsstring \<Rightarrow> nat" where
  "parseInt radix ds = to_double (foldl (\<lambda>acc c. acc * radix + digit_value c) 0 ds)"

definition fromCharCode :: "nat \<Rightarrow> jsstring" where
  "fromCharCode n = [n mod 65536]"

definition capture_of :: "jsstring option \<Rightarrow> jsstring" where
  "capture_of cap = (case cap of None \<Rightarrow> [] | Some s \<Rightarrow> s)"

text \<open>\<^verbatim>\<open>trim()\<close> removes the white space and line terminators at both ends.\<close>

definition js_trim :: "jsstring \<Rightarrow> jsstring" where
  "js_trim s = rev (dropWhile is_space (rev (dropWhile is_space s)))"

text \<open>
  \<^verbatim>\<open>
  if (!html) return ''
  text = html.replace(/&nbsp;/g, ' ').replace(/&amp;/g, '&').replace(/&lt;/g, '<')
    .replace(/&gt;/g, '>').replace(/&quot;/g, '"').replace(/&apos;/g, "'")
    .replace(/&#(\d+);/g, (_, n) => String.fromCharCode(parseInt(n)))
    .replace(/&#x([0-9a-fA-F]+);/g, (_, n) => String.fromCharCode(parseInt(n, 16)))
  text = text.replace(/<style[^>]*>[\s\S]*?<\/style>/gi, '')
  text = text.replace(/<script[^>]*>[\s\S]*?<\/script>/gi, '')
  text = text.replace(/<br\s*\/?>/gi, '\n')
  text = text.replace(/<\/p>/gi, '\n')
  text = text.replace(/<\/div>/gi, '\n')
  text = text.replace(/<[^>]+>/g, ' ')
  text = text.replace(/\s+/g, ' ')
  return text.trim()\<close>
\<close>

definition htmlToText :: "jsstring \<Rightarrow> jsstring" where
  "htmlToText html =
     (if html = [] then []
      else
        let text = html;
            text = js_replace flags_g (Lit (js ''&nbsp;'')) (\<lambda>_. js '' '') text;
            text = js_replace flags_g (Lit (js ''&amp;'')) (\<lambda>_. js ''&'') text;
            text = js_replace flags_g (Lit (js ''&lt;'')) (\<lambda>_. js ''<'') text;
            text = js_replace flags_g (Lit (js ''&gt;'')) (\<lambda>_. js ''>'') text;
            text = js_replace flags_g (Lit (js ''&quot;'')) (\<lambda>_. [34]) text;
            text = js_replace flags_g (Lit (js ''&apos;'')) (\<lambda>_. [39]) text;
            text = js_replace flags_g (seqs [Lit (js ''&#''), Group (plus is_digit), Lit (js '';'')])
                     (\<lambda>n. fromCharCode (parseInt 10 (capture_of n))) text;
            text = js_replace flags_g (seqs [Lit (js ''&#x''), Group (plus is_hex_digit), Lit (js '';'')])
                     (\<lambda>n. fromCharCode (parseInt 16 (capture_of n))) text;
            text = js_replace flags_gi
                     (seqs [Lit (js ''<style''), Star (\<lambda>c. c \<noteq> 62), Lit (js ''>''),
                            LazyStar (\<lambda>c. True), Lit (js ''</style>'')]) (\<lambda>_. []) text;
            text = js_replace flags_gi
                     (seqs [Lit (js ''<script''), Star (\<lambda>c. c \<noteq> 62), Lit (js ''>''),
                            LazyStar (\<lambda>c. True), Lit (js ''</script>'')]) (\<lambda>_. []) text;
            text = js_replace flags_gi
                     (seqs [Lit (js ''<br''), Star is_space, Alt (Lit (js ''/'')) Eps, Lit (js ''>'')])
                     (\<lambda>_. [10]) text;
            text = js_replace flags_gi (Lit (js ''</p>'')) (\<lambda>_. [10]) text;
            text = js_replace flags_gi (Lit (js ''</div>'')) (\<lambda>_. [10]) text;
            text = js_replace flags_g (seqs [Lit (js ''<''), plus (\<lambda>c. c \<noteq> 62), Lit (js ''>'')])
                     (\<lambda>_. js '' '') text;
            text = js_replace flags_g (plus is_space) (\<lambda>_. js '' '') text
        in js_trim text)"

section \<open>Graph-refresh mailbox backend (getOutlookVerificationCode)\<close>

text \<open>
  \<^verbatim>\<open>toLowerCase()\<close> on ASCII letters. Of the code units outside ASCII only U+0130 and
  U+212A lower-case to something with an ASCII letter in it (\<^verbatim>\<open>i\<close> followed by a
  combining dot, and \<^verbatim>\<open>k\<close>), and neither can complete one of the sender names below.
\<close>

definition js_lower :: "jsstring \<Rightarrow> jsstring" where
  "js_lower s = map (\<lambda>c. if 65 \<le> c \<and> c \<le> 90 then c + 32 else c) s"

text \<open>\<^verbatim>\<open>x || ''\<close> for a string that may be missing.\<close>

definition or_empty :: "jsstring option \<Rightarrow> jsstring" where
  "or_empty x = (case x of None \<Rightarrow> [] | Some s \<Rightarrow> s)"

text \<open>\<^verbatim>\<open>!code\<close>: \<^verbatim>\<open>null\<close> and the empty string are falsy.\<close>

definition falsy :: "code_result \<Rightarrow> bool" where
  "falsy r = (case r of Code c \<Rightarrow> c = [] | Null \<Rightarrow> True | Hangs \<Rightarrow> False)"

definition AWS_SENDERS_graph :: "jsstring list" where
  "AWS_SENDERS_graph =
     [js ''no-reply@signin.aws'', js ''no-reply@login.awsapps.com'', js ''noreply@amazon.com'',
      js ''account-update@amazon.com'', js ''no-reply@aws.amazon.com'', js ''noreply@aws.amazon.com'',
      js ''aws'']"

text \<open>
  A message of the Graph reply: \<^verbatim>\<open>id\<close>, \<^verbatim>\<open>from?.emailAddress?.address\<close>,
  \<^verbatim>\<open>body?.content\<close> and \<^verbatim>\<open>bodyPreview\<close>.
\<close>

record graph_mail =
  mail_id :: jsstring
  from_address :: "jsstring option"
  body_content :: "jsstring option"
  bodyPreview :: "jsstring option"

definition isAwsSender :: "graph_mail \<Rightarrow> bool" where
  "isAwsSender mail =
     (let fromEmail = js_lower (or_empty (from_address mail))
      in \<exists>s \<in> set AWS_SENDERS_graph. str_includes fromEmail (js_lower s))"

text \<open>
  \<^verbatim>\<open>
  let code = null
  const bodyText = htmlToText(mail.body?.content || '')
  if (bodyText) { code = extractCode(bodyText) }
  if (!code) { code = extractCode(mail.body?.content || '') }
  if (!code) { code = extractCode(mail.bodyPreview || '') }\<close>
  The result is the code together with the arguments of the calls of \<^verbatim>\<open>extractCode\<close>,
  in call order.
\<close>

definition extract_from_mail :: "graph_mail \<Rightarrow> code_result \<times> jsstring list" where
  "extract_from_mail mail =
     (let content = or_empty (body_content mail);
          bodyText = htmlToText content;
          (code, calls) = (if bodyText \<noteq> [] then (extractCode bodyText, [bodyText])
                           else (Null, []))
      in if code = Hangs then (Hangs, calls)
         else
           let (code, calls) = (if falsy code then (extractCode content, calls @ [content])
                                else (code, calls))
           in if code = Hangs then (Hangs, calls)
              else if falsy code
                   then (extractCode (or_empty (bodyPreview mail)),
                         calls @ [or_empty (bodyPreview mail)])
                   else (code, calls))"

text \<open>
  The loop over the messages of one reply: a message of an AWS sender that was not
  checked before is marked as checked and searched; the first code ends the search.
\<close>

fun scan_mails :: "graph_mail list \<Rightarrow> jsstring set \<Rightarrow> code_result \<times> jsstring set \<times> jsstring list" where
  "scan_mails [] checkedIds = (Null, checkedIds, [])"
| "scan_mails (mail # mails) checkedIds =
     (if isAwsSender mail \<and> mail_id mail \<notin> checkedIds then
        (let checked = insert (mail_id mail) checkedIds;
             (code, calls) = extract_from_mail mail
         in if code = Hangs \<or> \<not> falsy code then (code, checked, calls)
            else let (code', checked', calls') = scan_mails mails checked
                 in (code', checked', calls @ calls'))
      else scan_mails mails checkedIds)"

text \<open>
  The outside world of one pass of the poll loop: what the token request gets at each of
  the two endpoints (an exception, also from reading the body; a reply that is not ok; an
  ok reply with its \<^verbatim>\<open>access_token\<close>, which may be missing), what the message list
  request gets (an exception, also from reading the body; a reply that is not ok; an ok
  reply with its \<^verbatim>\<open>value\<close>), and the time the pass takes beyond its sleep.
\<close>

datatype token_reply = TokenThrows | TokenNotOk | TokenOk "jsstring option"

datatype mail_reply = MailThrows | MailNotOk | MailOk "graph_mail list option"

record graph_cycle =
  token_consumers :: token_reply
  token_common :: token_reply
  mail_list :: mail_reply
  elapsed :: nat

datatype graph_event = TokenPost nat | MailGet | Extract jsstring | Sleep nat

text \<open>
  \<^verbatim>\<open>
  for (const attempt of tokenAttempts) {
    try { ... if (tokenResponse.ok) { accessToken = tokenResult.access_token; break } }
    catch { continue }
  }\<close>
\<close>

fun refresh_token :: "(nat \<times> token_reply) list \<Rightarrow> jsstring option \<times> graph_event list" where
  "refresh_token [] = (None, [])"
| "refresh_token ((k, reply) # attempts) =
     (case reply of
        TokenOk tok \<Rightarrow> (tok, [TokenPost k])
      | _ \<Rightarrow> (let (tok, events) = refresh_token attempts in (tok, TokenPost k # events)))"

definition checkInterval :: nat where
  "checkInterval = 5000"

text \<open>
  One pass of the body of the \<^verbatim>\<open>while\<close> loop: it returns, or it sleeps and the loop
  goes on with the set of checked ids, or it never returns.
\<close>

datatype 'a pass_result = Return 'a | Again "jsstring set" | Stuck

definition graph_cycle_step ::
  "graph_cycle \<Rightarrow> jsstring set \<Rightarrow> jsstring option pass_result \<times> graph_event list" where
  "graph_cycle_step cy checkedIds =
     (let (accessToken, posts) =
            refresh_token [(0, token_consumers cy), (1, token_common cy)]
      in if accessToken = None \<or> accessToken = Some [] then (Return None, posts)
         else case mail_list cy of
                MailThrows \<Rightarrow> (Again checkedIds, posts @ [MailGet, Sleep checkInterval])
              | MailNotOk \<Rightarrow> (Again checkedIds, posts @ [MailGet, Sleep checkInterval])
              | MailOk v \<Rightarrow>
                  (let (code, checked, calls) =
                         scan_mails (case v of None \<Rightarrow> [] | Some ms \<Rightarrow> ms) checkedIds;
                       events = posts @ [MailGet] @ map Extract calls
                   in case code of
                        Hangs \<Rightarrow> (Stuck, events)
                      | Null \<Rightarrow> (Again checked, events @ [Sleep checkInterval])
                      | Code c \<Rightarrow> (Return (Some c), events)))"

datatype 'a outcome = Returns 'a | NoReturn

text \<open>
  \<^verbatim>\<open>while (Date.now() - startTime < timeout * 1000) { ... }\<close> followed by
  \<^verbatim>\<open>return null\<close>: \<open>t\<close> is the time since \<^verbatim>\<open>startTime\<close>, \<open>k\<close> counts the passes.
\<close>

function poll_graph ::
  "(nat \<Rightarrow> graph_cycle) \<Rightarrow> nat \<Rightarrow> nat \<Rightarrow> nat \<Rightarrow> jsstring set \<Rightarrow>
   jsstring option outcome \<times> graph_event list" where
  "poll_graph env budget t k checkedIds =
     (if t < budget then
        (case graph_cycle_step (env k) checkedIds of
           (Return r, events) \<Rightarrow> (Returns r, events)
         | (Stuck, events) \<Rightarrow> (NoReturn, events)
         | (Again checked, events) \<Rightarrow>
             (let (r, later) =
                    poll_graph env budget (t + elapsed (env k) + checkInterval) (Suc k) checked
              in (r, events @ later)))
      else (Returns None, []))"
  by pat_completeness auto
termination
  by (relation "measure (\<lambda>(env, budget, t, k, checkedIds). budget - t)")
     (auto simp: checkInterval_def)

declare poll_graph.simps [simp del]

definition getOutlookVerificationCode ::
  "(nat \<Rightarrow> graph_cycle) \<Rightarrow> nat \<Rightarrow> jsstring option outcome \<times> graph_event list" where
  "getOutlookVerificationCode env timeout = poll_graph env (timeout * 1000) 0 0 {}"

text \<open>The failure classes of a pass.\<close>

definition token_fails :: "token_reply \<Rightarrow> bool" where
  "token_fails r \<longleftrightarrow> r = TokenThrows \<or> r = TokenNotOk"

definition mail_fails :: "mail_reply \<Rightarrow> bool" where
  "mail_fails r \<longleftrightarrow> r = MailThrows \<or> r = MailNotOk"

definition token_posts :: "graph_cycle \<Rightarrow> graph_event list" where
  "token_posts cy = snd (refresh_token [(0, token_consumers cy), (1, token_common cy)])"

definition token_granted :: "graph_cycle \<Rightarrow> bool" where
  "token_granted cy \<longleftrightarrow>
     (case fst (refresh_token [(0, token_consumers cy), (1, token_common cy)]) of
        None \<Rightarrow> False | Some tok \<Rightarrow> tok \<noteq> [])"

definition tokens_down :: "nat \<Rightarrow> graph_cycle" where
  "tokens_down k = \<lparr> token_consumers = TokenNotOk, token_common = TokenThrows,
                     mail_list = MailOk None, elapsed = 300 \<rparr>"

definition mail_down :: "nat \<Rightarrow> graph_cycle" where
  "mail_down k = \<lparr> token_consumers = TokenNotOk, token_common = TokenOk (Some (js ''token'')),
                   mail_list = (if even k then MailNotOk else MailThrows), elapsed = 1000 \<rparr>"

section \<open>Disposable-mailbox backend (MailService.waitForVerificationCode)\<close>

definition AWS_SENDERS :: "jsstring list" where
  "AWS_SENDERS =
     [js ''no-reply@signin.aws'', js ''no-reply@login.awsapps.com'', js ''noreply@amazon.com'',
      js ''account-update@amazon.com'', js ''no-reply@aws.amazon.com'', js ''noreply@aws.amazon.com'']"

text \<open>
  Of \<^verbatim>\<open>EmailMessage\<close> the loop reads \<^verbatim>\<open>uid\<close> and the addresses of \<^verbatim>\<open>from\<close>; of
  \<^verbatim>\<open>EmailDetail\<close> it reads \<^verbatim>\<open>text\<close> (a string or \<^verbatim>\<open>null\<close>) and \<^verbatim>\<open>html\<close> (a
  string or \<^verbatim>\<open>false\<close>).
\<close>

record EmailMessage =
  uid :: nat
  from_addresses :: "jsstring list"

record EmailDetail =
  detail_text :: "jsstring option"
  detail_html :: "jsstring option"

text \<open>
  What \<^verbatim>\<open>getMessageDetail\<close> and \<^verbatim>\<open>getMessages\<close> do in one pass: they throw (as they
  do on a reply that is not ok) or return. A listed message comes with what the request
  for its detail would get.
\<close>

datatype detail_reply = DetailThrows | DetailOk EmailDetail

datatype messages_reply = MessagesThrow | MessagesOk "(EmailMessage \<times> detail_reply) list"

text \<open>
  \<^verbatim>\<open>
  const fromAddress = message.from[0]?.address.toLowerCase() || ''
  const isFromAWS = AWS_SENDERS.some(sender => fromAddress.includes(sender.toLowerCase()))\<close>
\<close>

definition isFromAWS :: "EmailMessage \<Rightarrow> bool" where
  "isFromAWS message =
     (let fromAddress = (case from_addresses message of [] \<Rightarrow> [] | a # _ \<Rightarrow> js_lower a)
      in \<exists>sender \<in> set AWS_SENDERS. str_includes fromAddress (js_lower sender))"

text \<open>
  \<^verbatim>\<open>
  const text = detail.text || ''
  const html = typeof detail.html === 'string' ? detail.html : ''
  const fullText = `${text}\n${html}`
  const code = extractCode(fullText)\<close>
  with the arguments of the calls of \<^verbatim>\<open>extractCode\<close>.
\<close>

definition extract_from_detail :: "EmailDetail \<Rightarrow> code_result \<times> jsstring list" where
  "extract_from_detail detail =
     (let text = or_empty (detail_text detail);
          html = or_empty (detail_html detail);
          fullText = text @ [10] @ html
      in (extractCode fullText, [fullText]))"

datatype mailbox_event = ListGet | DetailGet nat | ExtractCall jsstring | Wait nat

datatype scan_result = Found jsstring | NotFound | Threw | Hung

fun scan_messages :: "(EmailMessage \<times> detail_reply) list \<Rightarrow> scan_result \<times> mailbox_event list" where
  "scan_messages [] = (NotFound, [])"
| "scan_messages ((message, reply) # messages) =
     (if isFromAWS message then
        (case reply of
           DetailThrows \<Rightarrow> (Threw, [DetailGet (uid message)])
         | DetailOk detail \<Rightarrow>
             (let (code, calls) = extract_from_detail detail;
                  events = DetailGet (uid message) # map ExtractCall calls
              in case code of
                   Hangs \<Rightarrow> (Hung, events)
                 | Code c \<Rightarrow>
                     if c \<noteq> [] then (Found c, events)
                     else (let (r, later) = scan_messages messages in (r, events @ later))
                 | Null \<Rightarrow> (let (r, later) = scan_messages messages in (r, events @ later))))
      else scan_messages messages)"

record mailbox_cycle =
  message_list :: messages_reply
  spent :: nat

text \<open>
  \<^verbatim>\<open>
  while (Date.now() - startTime < maxWaitTime) {
    try { ... return code ... } catch (error) { console.error(...) }
    await new Promise(resolve => setTimeout(resolve, checkInterval))
  }
  throw new Error(...)\<close>
  A timer of less than a millisecond takes a millisecond.
\<close>

datatype wait_result = GotCode jsstring | TimedOut | Never

function wait_loop ::
  "(nat \<Rightarrow> mailbox_cycle) \<Rightarrow> nat \<Rightarrow> nat \<Rightarrow> nat \<Rightarrow> nat \<Rightarrow> wait_result \<times> mailbox_event list" where
  "wait_loop env maxWaitTime interval t k =
     (if t < maxWaitTime then
        (let (found, events) =
               (case message_list (env k) of
                  MessagesThrow \<Rightarrow> (Threw, [ListGet])
                | MessagesOk messages \<Rightarrow>
                    (let (r, evs) = scan_messages messages in (r, ListGet # evs)))
         in case found of
              Found c \<Rightarrow> (GotCode c, events)
            | Hung \<Rightarrow> (Never, events)
            | _ \<Rightarrow>
                (let (r, later) =
                       wait_loop env maxWaitTime interval
                         (t + spent (env k) + max 1 interval) (Suc k)
                 in (r, events @ [Wait interval] @ later)))
      else (TimedOut, []))"
  by pat_completeness auto
termination
  by (relation "measure (\<lambda>(env, maxWaitTime, interval, t, k). maxWaitTime - t)") auto

declare wait_loop.simps [simp del]

definition waitForVerificationCode ::
  "(nat \<Rightarrow> mailbox_cycle) \<Rightarrow> nat \<Rightarrow> nat \<Rightarrow> wait_result \<times> mailbox_event list" where
  "waitForVerificationCode env maxWaitTime interval = wait_loop env maxWaitTime interval 0 0"

text \<open>A mail whose code stands in markup.\<close>

definition sample_html :: jsstring where
  "sample_html = js ''<p>Your verification code is 482913</p>''"

definition sample_text :: jsstring where
  "sample_text = js ''Your verification code is 482913''"

definition sample_graph_mail :: graph_mail where
  "sample_graph_mail =
     \<lparr> mail_id = js ''m1'', from_address = Some (js ''no-reply@signin.aws''),
       body_content = Some sample_html, bodyPreview = None \<rparr>"

definition sample_detail :: EmailDetail where
  "sample_detail = \<lparr> detail_text = None, detail_html = Some sample_html \<rparr>"

text \<open>The first of two results that is not falsy.\<close>

definition first_code :: "code_result \<Rightarrow> code_result \<Rightarrow> code_result" where
  "first_code a b = (if falsy a then b else a)"

section \<open>Concurrency orchestrator (runConcurrent and registerSingleAccount, AutoRegisterPage.tsx)\<close>

text \<open>
  What \<^verbatim>\<open>window.api.autoRegisterAWS\<close> gives back to \<^verbatim>\<open>registerSingleAccount\<close>: a
  result object, or an exception with its message.
\<close>

record api_result =
  r_success :: bool
  r_ssoToken :: "jsstring option"
  r_awsName :: "jsstring option"
  r_error :: "jsstring option"

datatype api_reply = ApiReturns api_result | ApiThrows jsstring

text \<open>
  A task is one call of \<^verbatim>\<open>registerSingleAccount(account).then(...)\<close>. It is
  \<open>Registering\<close> while it awaits \<^verbatim>\<open>autoRegisterAWS\<close>, \<open>Importing\<close> while it awaits
  \<^verbatim>\<open>importWithSsoToken\<close>, \<open>Settled\<close> once \<^verbatim>\<open>registerSingleAccount\<close> has returned and
  the \<^verbatim>\<open>then\<close> callback has not run yet, and \<open>Resolved\<close> after the callback. Tasks are
  numbered in the order in which they are created; \<open>running\<close> is the array of that name.
\<close>

datatype phase = Registering | Importing | Settled | Resolved

record task =
  t_account :: RegisterAccount
  t_phase :: phase

text \<open>
  Where \<^verbatim>\<open>runConcurrent\<close> stands between two events: suspended at
  \<^verbatim>\<open>await Promise.race(running)\<close> (with the promises it races), returned, or turning in
  its \<^verbatim>\<open>while\<close> loop without ever reaching an \<^verbatim>\<open>await\<close>.
\<close>

datatype loop_state = Awaiting "nat list" | Exited | Spinning

record pool =
  accounts :: "RegisterAccount list"
  shouldStop :: bool
  queue :: "RegisterAccount list"
  running :: "nat list"
  tasks :: "task list"
  loop_at :: loop_state

text \<open>
  \<^verbatim>\<open>registerSingleAccount\<close> up to its first \<^verbatim>\<open>await\<close>:
  \<^verbatim>\<open>
  if (useAutoRegisterStore.getState().shouldStop) return
  if (account.status === 'success' || account.status === 'exists') return
  try {
    updateAccountStatus(account.id, { status: 'registering' })
    ...
    const result = await window.api.autoRegisterAWS({...})\<close>
\<close>

definition registerSingleAccount_begin :: "RegisterAccount \<Rightarrow> pool \<Rightarrow> pool" where
  "registerSingleAccount_begin account cfg =
     (if shouldStop cfg then
        cfg \<lparr> tasks := tasks cfg @ [\<lparr> t_account = account, t_phase = Settled \<rparr>] \<rparr>
      else if status account = success \<or> status account = exists_already then
        cfg \<lparr> tasks := tasks cfg @ [\<lparr> t_account = account, t_phase = Settled \<rparr>] \<rparr>
      else
        cfg \<lparr> accounts := updateAccountStatus (id account) (only_status registering) (accounts cfg),
              tasks := tasks cfg @ [\<lparr> t_account = account, t_phase = Registering \<rparr>] \<rparr>)"

text \<open>The default error text of \<^verbatim>\<open>result.error || '...'\<close> (four CJK characters).\<close>

definition registration_failed :: jsstring where
  "registration_failed = [0x6CE8, 0x518C, 0x5931, 0x8D25]"

definition set_phase :: "nat \<Rightarrow> phase \<Rightarrow> pool \<Rightarrow> pool" where
  "set_phase tid ph cfg = cfg \<lparr> tasks := (tasks cfg)[tid := (tasks cfg ! tid) \<lparr> t_phase := ph \<rparr>] \<rparr>"

text \<open>
  \<^verbatim>\<open>registerSingleAccount\<close> after \<^verbatim>\<open>autoRegisterAWS\<close> has settled:
  \<^verbatim>\<open>
  if (result.success && result.ssoToken) {
    updateAccountStatus(account.id, { status: 'success', ssoToken: result.ssoToken,
                                      awsName: result.awsName })
    await importWithSsoToken(...)
  } else {
    updateAccountStatus(account.id, { status: 'failed', error: result.error || '...' })
  }
  } catch (error) {
    updateAccountStatus(account.id, { status: 'failed', error: String(error) })
  }\<close>
\<close>

definition got_token :: "api_result \<Rightarrow> bool" where
  "got_token result \<longleftrightarrow>
     r_success result \<and> r_ssoToken result \<noteq> None \<and> r_ssoToken result \<noteq> Some []"

fun result_updates :: "api_reply \<Rightarrow> AccountUpdates" where
  "result_updates (ApiReturns result) =
     (if got_token result then
        no_updates \<lparr> u_status := Some success,
                      u_ssoToken := Some (r_ssoToken result),
                      u_awsName := Some (r_awsName result) \<rparr>
      else
        no_updates \<lparr> u_status := Some failed,
                      u_error := Some (Some
                        (case r_error result of
                           None \<Rightarrow> registration_failed
                         | Some e \<Rightarrow> if e = [] then registration_failed else e)) \<rparr>)"
| "result_updates (ApiThrows e) =
     no_updates \<lparr> u_status := Some failed, u_error := Some (Some e) \<rparr>"

fun result_phase :: "api_reply \<Rightarrow> phase" where
  "result_phase (ApiReturns result) = (if got_token result then Importing else Settled)"
| "result_phase (ApiThrows e) = Settled"

definition registerSingleAccount_result :: "nat \<Rightarrow> api_reply \<Rightarrow> pool \<Rightarrow> pool" where
  "registerSingleAccount_result tid reply cfg =
     set_phase tid (result_phase reply)
       (cfg \<lparr> accounts := updateAccountStatus (id (t_account (tasks cfg ! tid)))
                             (result_updates reply) (accounts cfg) \<rparr>)"

text \<open>
  \<^verbatim>\<open>
  while (queue.length > 0 && running.length < concurrency) {
    const account = queue.shift()!
    const task = registerSingleAccount(account).then(() => { ... })
    running.push(task)
  }\<close>
\<close>

fun fill :: "nat \<Rightarrow> RegisterAccount list \<Rightarrow> pool \<Rightarrow> pool" where
  "fill concurrency [] cfg = cfg \<lparr> queue := [] \<rparr>"
| "fill concurrency (account # rest) cfg =
     (if length (running cfg) < concurrency then
        (let started = registerSingleAccount_begin account cfg;
             tid = length (tasks cfg)
         in fill concurrency rest (started \<lparr> running := running started @ [tid] \<rparr>))
      else cfg \<lparr> queue := account # rest \<rparr>)"

text \<open>
  \<^verbatim>\<open>runConcurrent\<close> from the test of its \<^verbatim>\<open>while\<close> loop to its next \<^verbatim>\<open>await\<close>:
  \<^verbatim>\<open>
  while (queue.length > 0 || running.length > 0) {
    if (useAutoRegisterStore.getState().shouldStop) { addLog(...); break }
    (the fill loop)
    if (running.length > 0) { await Promise.race(running) }
  }\<close>
  When the fill loop leaves \<open>running\<close> empty nothing is awaited and the test is made
  again: it fails when the queue is empty too; otherwise the fill loop has started nothing
  (the limit is 0), nothing has changed, and the loop turns for ever.
\<close>

definition loop_head :: "nat \<Rightarrow> pool \<Rightarrow> pool" where
  "loop_head concurrency cfg =
     (if queue cfg \<noteq> [] \<or> running cfg \<noteq> [] then
        if shouldStop cfg then cfg \<lparr> loop_at := Exited \<rparr>
        else
          (let filled = fill concurrency (queue cfg) cfg
           in if running filled \<noteq> [] then filled \<lparr> loop_at := Awaiting (running filled) \<rparr>
              else if queue filled = [] then filled \<lparr> loop_at := Exited \<rparr>
              else filled \<lparr> loop_at := Spinning \<rparr>)
      else cfg \<lparr> loop_at := Exited \<rparr>)"

text \<open>
  The events between which the single thread is idle: \<^verbatim>\<open>autoRegisterAWS\<close> settles for a
  task, \<^verbatim>\<open>importWithSsoToken\<close> returns for a task, the \<^verbatim>\<open>then\<close> callback of a task
  runs (\<^verbatim>\<open>const index = running.indexOf(task); if (index > -1) running.splice(index, 1)\<close>),
  \<^verbatim>\<open>runConcurrent\<close> resumes after its race (one of the raced promises is resolved), and
  the user asks to stop (\<^verbatim>\<open>requestStop\<close>). An event that cannot happen in a state
  gives \<open>None\<close>.
\<close>

datatype event =
    AutoRegisterSettles nat api_reply
  | ImportSettles nat
  | ThenCallback nat
  | Resume
  | RequestStop

definition phase_of :: "pool \<Rightarrow> nat \<Rightarrow> phase option" where
  "phase_of cfg tid = (if tid < length (tasks cfg) then Some (t_phase (tasks cfg ! tid)) else None)"

fun step :: "nat \<Rightarrow> event \<Rightarrow> pool \<Rightarrow> pool option" where
  "step n (AutoRegisterSettles tid reply) cfg =
     (if phase_of cfg tid = Some Registering
      then Some (registerSingleAccount_result tid reply cfg) else None)"
| "step n (ImportSettles tid) cfg =
     (if phase_of cfg tid = Some Importing then Some (set_phase tid Settled cfg) else None)"
| "step n (ThenCallback tid) cfg =
     (if phase_of cfg tid = Some Settled
      then Some (set_phase tid Resolved (cfg \<lparr> running := remove1 tid (running cfg) \<rparr>))
      else None)"
| "step n Resume cfg =
     (case loop_at cfg of
        Awaiting race \<Rightarrow>
          if \<exists>tid \<in> set race. phase_of cfg tid = Some Resolved
          then Some (loop_head n cfg) else None
      | _ \<Rightarrow> None)"
| "step n RequestStop cfg = Some (cfg \<lparr> shouldStop := True \<rparr>)"

text \<open>A schedule is a sequence of events; \<open>run\<close> is the state after it.\<close>

fun run :: "nat \<Rightarrow> event list \<Rightarrow> pool \<Rightarrow> pool option" where
  "run n [] cfg = Some cfg"
| "run n (ev # evs) cfg = (case step n ev cfg of None \<Rightarrow> None | Some cfg' \<Rightarrow> run n evs cfg')"

text \<open>
  \<^verbatim>\<open>const queue = [...pendingAccounts]\<close>, \<^verbatim>\<open>const running = []\<close>, after
  \<^verbatim>\<open>resetStop()\<close>; the call runs to its first \<^verbatim>\<open>await\<close>.
\<close>

definition runConcurrent :: "nat \<Rightarrow> RegisterAccount list \<Rightarrow> pool" where
  "runConcurrent concurrency store =
     loop_head concurrency
       \<lparr> accounts = store, shouldStop = False,
         queue = filter (\<lambda>a. status a = pending) store,
         running = [], tasks = [], loop_at = Spinning \<rparr>"

text \<open>The tasks in flight: started and not yet returned.\<close>

definition in_flight :: "pool \<Rightarrow> nat" where
  "in_flight cfg = length (filter (\<lambda>t. t_phase t = Registering \<or> t_phase t = Importing) (tasks cfg))"


text \<open>
  The invariant of the pool: \<open>running\<close> holds exactly the tasks whose callback has not
  run, it never holds more than the limit, and the tasks created so far followed by the
  queue are the accounts that were pending at the start.
\<close>

definition pool_inv :: "nat \<Rightarrow> RegisterAccount list \<Rightarrow> RegisterAccount list \<Rightarrow> pool \<Rightarrow> bool" where
  "pool_inv n P q cfg \<longleftrightarrow>
     distinct (running cfg) \<and>
     set (running cfg) = {i. i < length (tasks cfg) \<and> t_phase (tasks cfg ! i) \<noteq> Resolved} \<and>
     length (running cfg) \<le> n \<and>
     map t_account (tasks cfg) @ q = P"

definition pool_ok :: "nat \<Rightarrow> RegisterAccount list \<Rightarrow> pool \<Rightarrow> bool" where
  "pool_ok n P cfg \<longleftrightarrow>
     pool_inv n P (queue cfg) cfg \<and>
     (loop_at cfg = Exited \<longrightarrow> shouldStop cfg \<or> (queue cfg = [] \<and> running cfg = []))"

text \<open>The order of the phases of a task.\<close>

fun phase_rank :: "phase \<Rightarrow> nat" where
  "phase_rank Registering = 0"
| "phase_rank Importing = 1"
| "phase_rank Settled = 2"
| "phase_rank Resolved = 3"

text \<open>
  What a run leaves as it was once the stop flag is set: the flag, the number of tasks,
  the queue, the accounts that are not \<^verbatim>\<open>registering\<close>, and no task falls back in its
  phases.
\<close>

definition stop_frame :: "pool \<Rightarrow> pool \<Rightarrow> bool" where
  "stop_frame cfg cfg' \<longleftrightarrow>
     shouldStop cfg' \<and>
     length (tasks cfg') = length (tasks cfg) \<and>
     queue cfg' = queue cfg \<and>
     length (accounts cfg') = length (accounts cfg) \<and>
     (\<forall>k < length (accounts cfg).
        status (accounts cfg' ! k) = registering \<longrightarrow> status (accounts cfg ! k) = registering) \<and>
     (\<forall>tid < length (tasks cfg).
        phase_rank (t_phase (tasks cfg ! tid)) \<le> phase_rank (t_phase (tasks cfg' ! tid)))"

text \<open>
  The events that are left to a task that awaits \<^verbatim>\<open>autoRegisterAWS\<close>, when that call
  settles with \<open>reply\<close>: the reply, the return of \<^verbatim>\<open>importWithSsoToken\<close> when the reply
  brought a token, and the \<^verbatim>\<open>then\<close> callback; and those left to a task that awaits
  \<^verbatim>\<open>importWithSsoToken\<close>.
\<close>

definition task_events :: "nat \<Rightarrow> api_reply \<Rightarrow> event list" where
  "task_events tid reply =
     AutoRegisterSettles tid reply #
     (if result_phase reply = Importing then [ImportSettles tid] else []) @ [ThenCallback tid]"

definition import_events :: "nat \<Rightarrow> event list" where
  "import_events tid = [ImportSettles tid, ThenCallback tid]"

text \<open>Five pending accounts, replies of the registration, and two schedules.\<close>

definition pending_account :: "string \<Rightarrow> RegisterAccount" where
  "pending_account name =
     \<lparr> id = js name, email = js name @ js ''@example.com'', status = pending,
       awsName = None, ssoToken = None, error = None \<rparr>"

definition five_accounts :: "RegisterAccount list" where
  "five_accounts = map pending_account [''a'', ''b'', ''c'', ''d'', ''e'']"

definition reply_ok :: api_reply where
  "reply_ok = ApiReturns \<lparr> r_success = True, r_ssoToken = Some (js ''token''),
                           r_awsName = None, r_error = None \<rparr>"

definition reply_failed :: api_reply where
  "reply_failed = ApiReturns \<lparr> r_success = False, r_ssoToken = None,
                               r_awsName = None, r_error = Some (js ''timeout'') \<rparr>"

definition five_schedule :: "event list" where
  "five_schedule =
     [AutoRegisterSettles 1 reply_failed, ThenCallback 1, Resume,
      AutoRegisterSettles 0 reply_ok, ImportSettles 0, ThenCallback 0, Resume,
      AutoRegisterSettles 2 reply_failed, ThenCallback 2, Resume,
      AutoRegisterSettles 3 (ApiThrows (js ''ipc'')), AutoRegisterSettles 4 reply_ok,
      ThenCallback 3, ImportSettles 4, ThenCallback 4, Resume]"

definition stop_schedule :: "event list" where
  "stop_schedule = [AutoRegisterSettles 0 reply_failed, ThenCallback 0, Resume]"

section \<open>Registration orchestrator (autoRegisterAWS)\<close>

text \<open>
  \<^verbatim>\<open>autoRegisterAWS\<close> drives a browser page, the mailbox service and the SSO exchange
  through a sequence of awaited calls. The model is the function's own control flow over
  these calls; what a call does outside the function is the environment's reply to it.
  A call that takes a selector carries the selector: the email input, the button
  \<^verbatim>\<open>test-primary-button\<close>, the \<open>k\<close>-th entry of \<^verbatim>\<open>nameInputSelectors\<close>, the login heading,
  the input with placeholder \<^verbatim>\<open>Enter password\<close>, the \<open>k\<close>-th entry of the code input
  selectors (the same three in both branches), the buttons \<^verbatim>\<open>signup-next-button\<close> and
  \<^verbatim>\<open>email-verification-verify-button\<close>, and the input with placeholder
  \<^verbatim>\<open>Re-enter password\<close>.
\<close>

datatype selector =
    EmailInput
  | PrimaryButton
  | NameInput nat
  | LoginHeading
  | EnterPassword
  | CodeInput nat
  | SignupNextButton
  | VerifyButton
  | ReenterPassword

definition nameInputSelectors :: "selector list" where
  "nameInputSelectors = map NameInput [0, 1, 2, 3, 4, 5, 6]"

definition codeInputSelectors :: "selector list" where
  "codeInputSelectors = map CodeInput [0, 1, 2]"

text \<open>
  What \<^verbatim>\<open>Promise.race\<close> over the detectors resolves with: \<^verbatim>\<open>register-k\<close>,
  \<^verbatim>\<open>login\<close> or \<^verbatim>\<open>login-password\<close>.
\<close>

datatype race_label = RaceRegister nat | RaceLogin | RaceLoginPassword

record sso_result =
  sso_success :: bool
  sso_accessToken :: "jsstring option"
  sso_refreshToken :: "jsstring option"
  sso_error :: "jsstring option"

text \<open>
  The awaited calls, in the order of their first use in the source: the import of the
  mail module and the construction of the service, \<^verbatim>\<open>checkHealth\<close>,
  \<^verbatim>\<open>createMailbox\<close>, \<^verbatim>\<open>deleteMailbox(address)\<close>,
  \<^verbatim>\<open>waitForVerificationCode(address, password, ...)\<close>, \<^verbatim>\<open>chromium.launch\<close>,
  \<^verbatim>\<open>newContext\<close>, \<^verbatim>\<open>clearCookies\<close>, \<^verbatim>\<open>clearPermissions\<close>, \<^verbatim>\<open>newPage\<close>,
  \<^verbatim>\<open>addInitScript\<close>, \<^verbatim>\<open>goto(url)\<close>, \<^verbatim>\<open>waitForLoadState\<close>,
  \<^verbatim>\<open>page.waitForTimeout\<close> (whatever the delay), the helpers
  \<^verbatim>\<open>randomPageInteraction\<close>, \<^verbatim>\<open>waitAndFill(selector, value)\<close>,
  \<^verbatim>\<open>waitAndClickWithRetry(selector)\<close>, \<^verbatim>\<open>waitForPageStable\<close> and
  \<^verbatim>\<open>waitForManualInput(selector)\<close>, the race of the detectors,
  \<^verbatim>\<open>locator(selector).first().isVisible()\<close>,
  \<^verbatim>\<open>locator(selector).first().waitFor({state: 'visible'})\<close>,
  \<^verbatim>\<open>locator('input[type="password"]').all()\<close> with the placeholder and the visibility of
  each input, \<^verbatim>\<open>fill(password)\<close> on the \<open>k\<close>-th of these inputs, \<^verbatim>\<open>context.cookies()\<close>,
  \<^verbatim>\<open>locator('button').all()\<close> with the text and the visibility of each button,
  \<^verbatim>\<open>click()\<close> on the \<open>k\<close>-th button, \<^verbatim>\<open>browser.close()\<close>, and
  \<^verbatim>\<open>ssoDeviceAuth(ssoToken, 'us-east-1')\<close>. The helpers act on the page only, and
  only through the selector they are given; logging is left out.
\<close>

datatype call =
    ImportMailService
  | CheckHealth
  | CreateMailbox
  | DeleteMailbox jsstring
  | WaitForVerificationCode jsstring jsstring
  | Launch
  | NewContext
  | ClearCookies
  | ClearPermissions
  | NewPage
  | AddInitScript
  | Goto jsstring
  | WaitForLoadState
  | WaitForTimeout
  | RandomPageInteraction
  | WaitAndFill selector jsstring
  | WaitAndClickWithRetry selector
  | WaitForPageStable
  | RaceDetectors
  | IsVisible selector
  | WaitForVisible selector
  | WaitForManualInput selector
  | AllPasswordInputs
  | FillPasswordInput nat
  | Cookies
  | AllButtons
  | ClickButton nat
  | CloseBrowser
  | SsoDeviceAuth jsstring

text \<open>
  What the environment answers: the call throws (with a message), or it returns nothing,
  a boolean, a string, the label of the race, a mailbox (address and password) or
  \<^verbatim>\<open>null\<close>, the password inputs, the cookies (name and value), the buttons, or the
  result of the SSO exchange.
\<close>

datatype reply =
    Throws jsstring
  | Done
  | Bool bool
  | Text jsstring
  | Raced race_label
  | Mailbox "(jsstring \<times> jsstring) option"
  | Inputs "(jsstring option \<times> bool) list"
  | CookieJar "(jsstring \<times> jsstring) list"
  | Buttons "(jsstring option \<times> bool) list"
  | Sso sso_result

text \<open>
  The exceptions: one constructor for each \<^verbatim>\<open>throw new Error(...)\<close> of the function, in
  the order of the source, \<open>External\<close> for an exception thrown by a call, and \<open>SsoFailed\<close>,
  which is not thrown: it is the error of the result that the function returns when the
  SSO exchange reports no success.
\<close>

datatype failure =
    MailServiceUnavailable
  | CreateMailboxFailed
  | NoEmail
  | EmailInputNotFound
  | FirstContinueFailed
  | LoginPasswordNotFound
  | LoginContinueFailed
  | LoginCodeInputNotFound
  | LoginCodeTimeout
  | LoginVerifyFailed
  | PasswordInputNotFound
  | ConfirmPasswordNotFound
  | PasswordContinueFailed
  | NameInputNotFound
  | SecondContinueFailed
  | CodeInputNotFound
  | CodeTimeout
  | VerifyContinueFailed
  | FirstPasswordMissing
  | ConfirmPasswordMissing
  | ThirdContinueFailed
  | NoSsoToken
  | External jsstring
  | SsoFailed "jsstring option"

text \<open>
  The state of a run: the replies the environment has still to give, the calls made so
  far, and the three variables of the function that its \<^verbatim>\<open>catch\<close> block reads:
  \<^verbatim>\<open>browser\<close> (non-null or null), \<^verbatim>\<open>mailService\<close> (non-null or null) and
  \<^verbatim>\<open>tempMailbox\<close>.
\<close>

record world =
  script :: "reply list"
  trace :: "call list"
  browser :: bool
  mailService :: bool
  tempMailbox :: "(jsstring \<times> jsstring) option"

text \<open>A piece of the function: it throws or returns a value, and changes the state.\<close>

type_synonym 'a prog = "world \<Rightarrow> (failure + 'a) \<times> world"

definition ret :: "'a \<Rightarrow> 'a prog" where
  "ret x w = (Inr x, w)"

definition throw :: "failure \<Rightarrow> 'a prog" where
  "throw e w = (Inl e, w)"

definition bind :: "'a prog \<Rightarrow> ('a \<Rightarrow> 'b prog) \<Rightarrow> 'b prog" where
  "bind m f w = (case m w of (Inl e, w') \<Rightarrow> (Inl e, w') | (Inr x, w') \<Rightarrow> f x w')"

definition seq :: "'a prog \<Rightarrow> 'b prog \<Rightarrow> 'b prog" where
  "seq m k = bind m (\<lambda>_. k)"

definition try_catch :: "'a prog \<Rightarrow> (failure \<Rightarrow> 'a prog) \<Rightarrow> 'a prog" where
  "try_catch m h w = (case m w of (Inl e, w') \<Rightarrow> h e w' | (Inr x, w') \<Rightarrow> (Inr x, w'))"

text \<open>
  A call is recorded and takes the next reply; when the replies are used up the call
  throws.
\<close>

definition ask :: "call \<Rightarrow> reply prog" where
  "ask c w =
     (case script w of
        [] \<Rightarrow> (Inr (Throws []), w \<lparr> trace := trace w @ [c] \<rparr>)
      | r # rs \<Rightarrow> (Inr r, w \<lparr> script := rs, trace := trace w @ [c] \<rparr>))"

definition mismatch :: jsstring where
  "mismatch = js ''TypeError''"

text \<open>
  \<^verbatim>\<open>await call\<close>: the exception of the call is thrown on, a reply of the expected kind
  is the value, and a reply of another kind is a type error.
\<close>

definition await :: "call \<Rightarrow> (reply \<Rightarrow> 'a option) \<Rightarrow> 'a prog" where
  "await c read =
     bind (ask c) (\<lambda>r.
       case r of
         Throws e \<Rightarrow> throw (External e)
       | _ \<Rightarrow> (case read r of Some v \<Rightarrow> ret v | None \<Rightarrow> throw (External mismatch)))"

fun as_done :: "reply \<Rightarrow> unit option" where
  "as_done Done = Some ()"
| "as_done _ = None"

fun as_bool :: "reply \<Rightarrow> bool option" where
  "as_bool (Bool b) = Some b"
| "as_bool _ = None"

fun as_text :: "reply \<Rightarrow> jsstring option" where
  "as_text (Text t) = Some t"
| "as_text _ = None"

fun as_mailbox :: "reply \<Rightarrow> (jsstring \<times> jsstring) option option" where
  "as_mailbox (Mailbox m) = Some m"
| "as_mailbox _ = None"

fun as_inputs :: "reply \<Rightarrow> (jsstring option \<times> bool) list option" where
  "as_inputs (Inputs xs) = Some xs"
| "as_inputs _ = None"

fun as_cookies :: "reply \<Rightarrow> (jsstring \<times> jsstring) list option" where
  "as_cookies (CookieJar cs) = Some cs"
| "as_cookies _ = None"

fun as_buttons :: "reply \<Rightarrow> (jsstring option \<times> bool) list option" where
  "as_buttons (Buttons bs) = Some bs"
| "as_buttons _ = None"

fun as_sso :: "reply \<Rightarrow> sso_result option" where
  "as_sso (Sso r) = Some r"
| "as_sso _ = None"

definition await_done :: "call \<Rightarrow> unit prog" where
  "await_done c = await c as_done"

definition await_bool :: "call \<Rightarrow> bool prog" where
  "await_bool c = await c as_bool"

definition await_text :: "call \<Rightarrow> jsstring prog" where
  "await_text c = await c as_text"

text \<open>
  \<^verbatim>\<open>await call.catch(() => false)\<close>, and \<^verbatim>\<open>checkHealth\<close>, whose own \<^verbatim>\<open>catch\<close> returns
  \<^verbatim>\<open>false\<close>.
\<close>

definition or_false :: "call \<Rightarrow> bool prog" where
  "or_false c = bind (ask c) (\<lambda>r. case r of Bool b \<Rightarrow> ret b | _ \<Rightarrow> ret False)"

text \<open>
  A helper whose whole body is a \<^verbatim>\<open>try\<close> with a \<^verbatim>\<open>catch\<close> that only logs
  (\<^verbatim>\<open>waitForPageStable\<close>, \<^verbatim>\<open>randomPageInteraction\<close>): it returns whatever happens.
\<close>

definition best_effort :: "call \<Rightarrow> unit prog" where
  "best_effort c = bind (ask c) (\<lambda>_. ret ())"

text \<open>\<^verbatim>\<open>try { m } catch { log(...) }\<close>.\<close>

definition attempt :: "unit prog \<Rightarrow> unit prog" where
  "attempt m = try_catch m (\<lambda>_. ret ())"

text \<open>\<^verbatim>\<open>if (!(await m)) throw new Error(e)\<close>.\<close>

definition require :: "bool prog \<Rightarrow> failure \<Rightarrow> unit prog" where
  "require m e = bind m (\<lambda>ok. if ok then ret () else throw e)"

definition modify :: "(world \<Rightarrow> world) \<Rightarrow> unit prog" where
  "modify f w = (Inr (), f w)"

definition get :: "(world \<Rightarrow> 'a) \<Rightarrow> 'a prog" where
  "get f w = (Inr (f w), w)"

definition pause :: "unit prog" where
  "pause = await_done WaitForTimeout"

text \<open>\<^verbatim>\<open>const password = 'admin123456aA!'\<close>.\<close>

definition password :: jsstring where
  "password = js ''admin123456aA!''"

text \<open>\<^verbatim>\<open>!email\<close> for \<^verbatim>\<open>email: string | null\<close>.\<close>

definition falsy_str :: "jsstring option \<Rightarrow> bool" where
  "falsy_str x \<longleftrightarrow> x = None \<or> x = Some []"

text \<open>
  The arguments and the random choices of a run: \<^verbatim>\<open>email\<close>, \<^verbatim>\<open>testLoginDetection\<close>,
  \<^verbatim>\<open>keepBrowserOpen\<close>, \<^verbatim>\<open>mailServiceConfig?.enabled\<close>, the name given by
  \<^verbatim>\<open>generateRandomName()\<close>, and the two addresses built from the codes given by
  \<^verbatim>\<open>generateUserCode()\<close>.
\<close>

record params =
  p_email :: "jsstring option"
  p_testLoginDetection :: bool
  p_keepBrowserOpen :: bool
  p_mailServiceEnabled :: bool
  p_randomName :: jsstring
  p_registerUrl :: jsstring
  p_testUrl :: jsstring

text \<open>
  \<^verbatim>\<open>
  const { MailService } = await import('./mailService')
  mailService = new MailService(mailServiceConfig)
  const isHealthy = await mailService.checkHealth()
  if (!isHealthy) { throw new Error(...) }
  tempMailbox = await mailService.createMailbox()
  if (!tempMailbox) { throw new Error(...) }
  email = tempMailbox.email\<close>
\<close>

definition create_mailbox :: "jsstring prog" where
  "create_mailbox =
     seq (await_done ImportMailService)
    (seq (modify (\<lambda>w. w \<lparr> mailService := True \<rparr>))
    (seq (require (or_false CheckHealth) MailServiceUnavailable)
    (bind (await CreateMailbox as_mailbox) (\<lambda>created.
       case created of
         Some (address, pw) \<Rightarrow>
           seq (modify (\<lambda>w. w \<lparr> tempMailbox := Some (address, pw) \<rparr>)) (ret address)
       | None \<Rightarrow> throw CreateMailboxFailed))))"

text \<open>
  \<^verbatim>\<open>
  if (mailServiceConfig?.enabled && !email) { ... }
  if (!email) { throw new Error(...) }\<close>
\<close>

definition resolve_email :: "params \<Rightarrow> jsstring prog" where
  "resolve_email p =
     bind (if p_mailServiceEnabled p \<and> falsy_str (p_email p)
           then bind create_mailbox (\<lambda>address. ret (Some address))
           else ret (p_email p)) (\<lambda>given.
     case given of
       None \<Rightarrow> throw NoEmail
     | Some address \<Rightarrow> if address = [] then throw NoEmail else ret address)"

text \<open>
  From \<^verbatim>\<open>browser = await chromium.launch(...)\<close> to
  \<^verbatim>\<open>await randomPageInteraction(page, log)\<close>. The fingerprint and the window position
  that are computed before the launch are values of pure functions; they are arguments
  of \<^verbatim>\<open>launch\<close> and \<^verbatim>\<open>newContext\<close> and are read nowhere else.
\<close>

definition open_page :: "params \<Rightarrow> unit prog" where
  "open_page p =
     seq (await_done Launch)
    (seq (modify (\<lambda>w. w \<lparr> browser := True \<rparr>))
    (seq (await_done NewContext)
    (seq (await_done ClearCookies)
    (seq (await_done ClearPermissions)
    (seq (await_done NewPage)
    (seq (await_done AddInitScript)
    (seq (await_done (Goto (p_registerUrl p)))
    (seq (await_done WaitForLoadState)
    (seq (await_done WaitForLoadState)
    (seq pause
         (best_effort RandomPageInteraction)))))))))))"

text \<open>
  \<^verbatim>\<open>
  if (!(await waitAndFill(page, emailInputSelector, email, ...))) { throw new Error(...) }
  await page.waitForTimeout(randomDelay(1500, 0.5))
  if (!(await waitAndClickWithRetry(page, firstContinueSelector, ...))) { throw new Error(...) }
  await waitForPageStable(page, log, ...)\<close>
\<close>

definition submit_email :: "jsstring \<Rightarrow> unit prog" where
  "submit_email address =
     seq (require (await_bool (WaitAndFill EmailInput address)) EmailInputNotFound)
    (seq pause
    (seq (require (await_bool (WaitAndClickWithRetry PrimaryButton)) FirstContinueFailed)
         (best_effort WaitForPageStable)))"

text \<open>
  \<^verbatim>\<open>
  for (const selector of nameInputSelectors) {
    const isVisible = await page.locator(selector).first().isVisible().catch(() => false)
    if (isVisible) { hasNameInput = true; break }
  }\<close>
\<close>

fun any_visible :: "selector list \<Rightarrow> bool prog" where
  "any_visible [] = ret False"
| "any_visible (s # ss) =
     bind (or_false (IsVisible s)) (\<lambda>isVisible. if isVisible then ret True else any_visible ss)"

text \<open>
  The body of the inner \<^verbatim>\<open>try\<close> of the classifier; the value is \<^verbatim>\<open>isLoginFlow\<close>:
  \<^verbatim>\<open>
  if (hasNameInput) { isLoginFlow = false }
  else {
    const hasLoginHeading = await page.locator(loginHeadingSelector).first().isVisible().catch(() => false)
    if (hasLoginHeading) { isLoginFlow = true }
    else {
      const hasLoginPassword = await page.locator(loginPasswordSelector).first().isVisible().catch(() => false)
      if (hasLoginPassword) { isLoginFlow = true } else { isLoginFlow = false }
    }
  }\<close>
\<close>

definition probe_sequentially :: "bool prog" where
  "probe_sequentially =
     bind (any_visible nameInputSelectors) (\<lambda>hasNameInput.
       if hasNameInput then ret False
       else bind (or_false (IsVisible LoginHeading)) (\<lambda>hasLoginHeading.
         if hasLoginHeading then ret True
         else bind (or_false (IsVisible EnterPassword)) (\<lambda>hasLoginPassword.
           if hasLoginPassword then ret True else ret False)))"

text \<open>
  The classifier; the value is \<^verbatim>\<open>isLoginFlow\<close>:
  \<^verbatim>\<open>
  try {
    const result = await Promise.race([...nameInputPromises, (login heading), (login password)])
    if (result === 'login' || result === 'login-password') { isLoginFlow = true; ... }
    else if (result.startsWith('register-')) { isLoginFlow = false }
  } catch {
    try { (the sequential probe) } catch { isLoginFlow = false }
  }\<close>
  The race rejects when the reply is not a label.
\<close>

definition classify :: "bool prog" where
  "classify =
     bind (ask RaceDetectors) (\<lambda>r.
       case r of
         Raced RaceLogin \<Rightarrow> ret True
       | Raced RaceLoginPassword \<Rightarrow> ret True
       | Raced (RaceRegister k) \<Rightarrow> ret False
       | _ \<Rightarrow> try_catch probe_sequentially (\<lambda>_. ret False))"

text \<open>
  \<^verbatim>\<open>
  for (const selector of loginCodeSelectors) {
    try {
      await page.locator(selector).first().waitFor({ state: 'visible', timeout: 10000 })
      loginCodeInput = selector
      break
    } catch { continue }
  }\<close>
\<close>

fun first_visible :: "selector list \<Rightarrow> selector option prog" where
  "first_visible [] = ret None"
| "first_visible (s # ss) =
     try_catch (seq (await_done (WaitForVisible s)) (ret (Some s))) (\<lambda>_. first_visible ss)"

text \<open>
  \<^verbatim>\<open>
  while (!loginCodeInput && retryCount < maxRetries) {
    (the loop over the selectors)
    if (!loginCodeInput) {
      retryCount++
      if (retryCount < maxRetries) { await page.waitForTimeout(2000) }
    }
  }\<close>
  with \<^verbatim>\<open>maxRetries = 999\<close>; the same loop stands in both branches.
\<close>

function find_code_input :: "nat \<Rightarrow> selector option prog" where
  "find_code_input retryCount =
     (if retryCount < 999 then
        bind (first_visible codeInputSelectors) (\<lambda>found.
          case found of
            Some s \<Rightarrow> ret (Some s)
          | None \<Rightarrow>
              seq (if Suc retryCount < 999 then pause else ret ())
                  (find_code_input (Suc retryCount)))
      else ret None)"
  by pat_completeness auto
termination
  by (relation "measure (\<lambda>retryCount. 999 - retryCount)") auto

declare find_code_input.simps [simp del]

text \<open>
  \<^verbatim>\<open>
  if (mailService && tempMailbox) {
    try {
      const code = await mailService.waitForVerificationCode(tempMailbox.email, tempMailbox.password, ...)
      await waitAndFill(page, loginCodeInput, code, log, ..., 30000, 1, false)
    } catch (error) {
      if (!(await waitForManualInput(page, loginCodeInput, log, ...))) { throw new Error(...) }
    }
  } else {
    if (!(await waitForManualInput(page, loginCodeInput, log, ...))) { throw new Error(...) }
  }\<close>
\<close>

definition enter_code :: "selector \<Rightarrow> failure \<Rightarrow> unit prog" where
  "enter_code codeInput timeout =
     bind (get (\<lambda>w. (mailService w, tempMailbox w))) (\<lambda>(service, mailbox).
       case (service, mailbox) of
         (True, Some (address, pw)) \<Rightarrow>
           try_catch
             (bind (await_text (WaitForVerificationCode address pw)) (\<lambda>code.
                bind (await_bool (WaitAndFill codeInput code)) (\<lambda>_. ret ())))
             (\<lambda>_. require (await_bool (WaitForManualInput codeInput)) timeout)
       | _ \<Rightarrow> require (await_bool (WaitForManualInput codeInput)) timeout)"

text \<open>
  The login branch, step 2 (\<^verbatim>\<open>isVerifyFlow\<close> is never set, so the step is always taken):
  \<^verbatim>\<open>
  if (!(await waitAndFill(page, loginPasswordSelector, password, log, ..., 30000, 999))) {
    throw new Error(...)
  }
  await page.waitForTimeout(randomDelay(1500, 0.5))
  if (!(await waitAndClickWithRetry(page, loginContinueSelector, log, ...))) { throw new Error(...) }
  await waitForPageStable(page, log, ...)\<close>
\<close>

definition login_password_step :: "unit prog" where
  "login_password_step =
     seq (require (await_bool (WaitAndFill EnterPassword password)) LoginPasswordNotFound)
    (seq pause
    (seq (require (await_bool (WaitAndClickWithRetry PrimaryButton)) LoginContinueFailed)
         (best_effort WaitForPageStable)))"

text \<open>
  The login branch, step 3: the code input is looked for, the code is entered, and the
  button is clicked.
\<close>

definition login_code_step :: "unit prog" where
  "login_code_step =
     bind (find_code_input 0) (\<lambda>loginCodeInput.
       case loginCodeInput of
         None \<Rightarrow> throw LoginCodeInputNotFound
       | Some codeInput \<Rightarrow>
           seq pause
          (seq (enter_code codeInput LoginCodeTimeout)
          (seq pause
          (seq (require (await_bool (WaitAndClickWithRetry PrimaryButton)) LoginVerifyFailed)
               (best_effort WaitForPageStable)))))"

text \<open>
  The end of the login branch:
  \<^verbatim>\<open>
  try {
    await page.locator(passwordInputSelector).first().waitFor({ state: 'visible', timeout: 10000 })
    if (!(await waitAndFill(page, passwordInputSelector, password, log, ...))) { throw new Error(...) }
    await page.waitForTimeout(500)
    if (!(await waitAndFill(page, confirmPasswordSelector, password, log, ...))) { throw new Error(...) }
    await page.waitForTimeout(1000)
    if (!(await waitAndClickWithRetry(page, passwordContinueSelector, log, ...))) { throw new Error(...) }
    await page.waitForTimeout(5000)
  } catch { log(...) }\<close>
\<close>

definition login_new_password_step :: "unit prog" where
  "login_new_password_step =
     attempt
       (seq (await_done (WaitForVisible EnterPassword))
       (seq (require (await_bool (WaitAndFill EnterPassword password)) PasswordInputNotFound)
       (seq pause
       (seq (require (await_bool (WaitAndFill ReenterPassword password)) ConfirmPasswordNotFound)
       (seq pause
       (seq (require (await_bool (WaitAndClickWithRetry PrimaryButton)) PasswordContinueFailed)
            pause))))))"

definition login_flow :: "unit prog" where
  "login_flow = seq login_password_step (seq login_code_step login_new_password_step)"

text \<open>
  \<^verbatim>\<open>
  for (const selector of nameInputSelectors) {
    if (await waitAndFill(page, selector, randomName, log, ..., 30000, 999)) {
      nameInputFilled = true
      break
    }
  }\<close>
\<close>

fun fill_name :: "selector list \<Rightarrow> jsstring \<Rightarrow> bool prog" where
  "fill_name [] name = ret False"
| "fill_name (s # ss) name =
     bind (await_bool (WaitAndFill s name)) (\<lambda>filled. if filled then ret True else fill_name ss name)"

definition CONFIRM_KEYWORDS :: "jsstring list" where
  "CONFIRM_KEYWORDS = [js ''nouveau'', js ''erneut'', js ''re-enter'', js ''repeat'', js ''confirm'',
                       js ''again'']"

text \<open>
  One pass over the password inputs; \<open>k\<close> is the index of the input at hand:
  \<^verbatim>\<open>
  for (const input of allPasswordInputs) {
    const placeholder = await input.getAttribute('placeholder').catch(() => '')
    const isVisible = await input.isVisible().catch(() => false)
    if (!isVisible) continue
    const placeholderLower = (placeholder || '').toLowerCase()
    const isConfirm = confirmKeywords.some((keyword) => placeholderLower.includes(keyword))
    if (isConfirm) { confirmPasswordInput = input }
    else { if (!firstPasswordInput) { firstPasswordInput = input } }
  }\<close>
\<close>

fun pick_password_inputs ::
  "(jsstring option \<times> bool) list \<Rightarrow> nat \<Rightarrow> nat option \<times> nat option \<Rightarrow> nat option \<times> nat option" where
  "pick_password_inputs [] k found = found"
| "pick_password_inputs ((placeholder, isVisible) # inputs) k (first, confirm) =
     (if \<not> isVisible then pick_password_inputs inputs (Suc k) (first, confirm)
      else if \<exists>keyword \<in> set CONFIRM_KEYWORDS. str_includes (js_lower (or_empty placeholder)) keyword
      then pick_password_inputs inputs (Suc k) (first, Some k)
      else if first = None then pick_password_inputs inputs (Suc k) (Some k, confirm)
      else pick_password_inputs inputs (Suc k) (first, confirm))"

text \<open>
  \<^verbatim>\<open>
  while (retryCount < maxRetries) {
    await page.waitForTimeout(randomDelay(4000, 0.5))
    const allPasswordInputs = await page.locator('input[type="password"]').all()
    firstPasswordInput = null
    confirmPasswordInput = null
    (the pass over the inputs)
    if (firstPasswordInput && confirmPasswordInput) { break }
    retryCount++
  }\<close>
  The value is the pair of the two variables after the loop.
\<close>

function find_password_inputs :: "nat \<Rightarrow> nat option \<times> nat option \<Rightarrow> (nat option \<times> nat option) prog" where
  "find_password_inputs retryCount previous =
     (if retryCount < 999 then
        seq pause
       (bind (await AllPasswordInputs as_inputs) (\<lambda>allPasswordInputs.
          let found = pick_password_inputs allPasswordInputs 0 (None, None)
          in if fst found \<noteq> None \<and> snd found \<noteq> None then ret found
             else find_password_inputs (Suc retryCount) found))
      else ret previous)"
  by pat_completeness auto
termination
  by (relation "measure (\<lambda>(retryCount, previous). 999 - retryCount)") auto

declare find_password_inputs.simps [simp del]

text \<open>The registration branch, from step 2 to the third continue button.\<close>

definition register_flow :: "jsstring \<Rightarrow> unit prog" where
  "register_flow randomName =
     seq (require (fill_name nameInputSelectors randomName) NameInputNotFound)
    (seq pause
    (seq (require (await_bool (WaitAndClickWithRetry SignupNextButton)) SecondContinueFailed)
    (seq (best_effort WaitForPageStable)
    (bind (find_code_input 0) (\<lambda>codeInputSelector.
       case codeInputSelector of
         None \<Rightarrow> throw CodeInputNotFound
       | Some codeInput \<Rightarrow>
           seq (enter_code codeInput CodeTimeout)
          (seq pause
          (seq (require (await_bool (WaitAndClickWithRetry VerifyButton)) VerifyContinueFailed)
          (seq (best_effort WaitForPageStable)
          (bind (find_password_inputs 0 (None, None)) (\<lambda>(firstPasswordInput, confirmPasswordInput).
             seq (case firstPasswordInput of
                    Some k \<Rightarrow> await_done (FillPasswordInput k)
                  | None \<Rightarrow> throw FirstPasswordMissing)
            (seq pause
            (seq (case confirmPasswordInput of
                    Some k \<Rightarrow> await_done (FillPasswordInput k)
                  | None \<Rightarrow> throw ConfirmPasswordMissing)
            (seq pause
            (seq (require (await_bool (WaitAndClickWithRetry PrimaryButton)) ThirdContinueFailed)
                 (best_effort WaitForPageStable)))))))))))))))"

definition SSO_COOKIE :: jsstring where
  "SSO_COOKIE = js ''x-amz-sso_authn''"

text \<open>
  The keywords of the confirm button; the first and the fourth are two CJK characters
  each, the last is two more.
\<close>

definition DIALOG_KEYWORDS :: "jsstring list" where
  "DIALOG_KEYWORDS =
     [[0x786E, 0x8BA4], js ''confirm'', js ''continue'', [0x5B8C, 0x6210], js ''finish'',
      js ''done'', js ''ok'', js ''allow'', [0x5141, 0x8BB8]]"

text \<open>The visible buttons, each with its index and its text.\<close>

fun visible_buttons :: "(jsstring option \<times> bool) list \<Rightarrow> nat \<Rightarrow> (nat \<times> jsstring option) list" where
  "visible_buttons [] k = []"
| "visible_buttons ((label, isVisible) # buttons) k =
     (if isVisible then (k, label) # visible_buttons buttons (Suc k)
      else visible_buttons buttons (Suc k))"

definition is_confirm_button :: "nat \<times> jsstring option \<Rightarrow> bool" where
  "is_confirm_button b \<longleftrightarrow>
     (\<exists>keyword \<in> set DIALOG_KEYWORDS. str_includes (js_lower (or_empty (snd b))) keyword)"

text \<open>
  The body of the \<^verbatim>\<open>try\<close> that follows the cookie: one visible button is clicked; of
  several, the first whose text holds a keyword, or else the first.
\<close>

definition dismiss_dialog :: "unit prog" where
  "dismiss_dialog =
     bind (await AllButtons as_buttons) (\<lambda>buttons.
       case visible_buttons buttons 0 of
         [] \<Rightarrow> ret ()
       | [b] \<Rightarrow> seq (await_done (ClickButton (fst b))) pause
       | b # bs \<Rightarrow>
           (case List.find is_confirm_button (b # bs) of
              Some c \<Rightarrow> seq (await_done (ClickButton (fst c))) pause
            | None \<Rightarrow> seq (await_done (ClickButton (fst b))) pause))"

text \<open>
  \<^verbatim>\<open>
  for (let i = 0; i < 999; i++) {
    const cookies = await context.cookies()
    const ssoCookie = cookies.find((c) => c.name === 'x-amz-sso_authn')
    if (ssoCookie) {
      ssoToken = ssoCookie.value
      await page.waitForTimeout(randomDelay(2000))
      try { (the buttons) } catch (e) { log(...) }
      break
    }
    await page.waitForTimeout(randomDelay(1000))
  }\<close>
\<close>

function harvest_token :: "nat \<Rightarrow> jsstring option prog" where
  "harvest_token i =
     (if i < 999 then
        bind (await Cookies as_cookies) (\<lambda>cookies.
          case List.find (\<lambda>c. fst c = SSO_COOKIE) cookies of
            Some ssoCookie \<Rightarrow>
              seq pause (seq (attempt dismiss_dialog) (ret (Some (snd ssoCookie))))
          | None \<Rightarrow> seq pause (harvest_token (Suc i)))
      else ret None)"
  by pat_completeness auto
termination
  by (relation "measure (\<lambda>i. 999 - i)") auto

declare harvest_token.simps [simp del]

text \<open>
  The test of the classifier after a registration, the whole of it in a \<^verbatim>\<open>try\<close> whose
  \<^verbatim>\<open>catch\<close> logs: the page is loaded again and the three detectors are probed.
\<close>

definition test_login_detection :: "params \<Rightarrow> unit prog" where
  "test_login_detection p =
     attempt
       (seq (await_done (Goto (p_testUrl p)))
       (seq pause
       (bind (or_false (IsVisible LoginHeading)) (\<lambda>testLoginHeading.
        bind (or_false (IsVisible EnterPassword)) (\<lambda>testLoginPassword.
        bind (any_visible nameInputSelectors) (\<lambda>testNameInput. ret ()))))))"

text \<open>\<^verbatim>\<open>await browser.close(); browser = null\<close>.\<close>

definition close_browser :: "unit prog" where
  "close_browser = seq (await_done CloseBrowser) (modify (\<lambda>w. w \<lparr> browser := False \<rparr>))"

text \<open>
  \<^verbatim>\<open>
  if (mailService && tempMailbox) {
    try { await mailService.deleteMailbox(tempMailbox.email) } catch (error) { log(...) }
  }\<close>
\<close>

definition cleanup_mailbox :: "unit prog" where
  "cleanup_mailbox =
     bind (get (\<lambda>w. (mailService w, tempMailbox w))) (\<lambda>(service, mailbox).
       case (service, mailbox) of
         (True, Some (address, pw)) \<Rightarrow> attempt (await_done (DeleteMailbox address))
       | _ \<Rightarrow> ret ())"

record credentials =
  c_ssoToken :: jsstring
  c_name :: jsstring
  c_accessToken :: "jsstring option"
  c_refreshToken :: "jsstring option"

text \<open>
  What the function returns: \<^verbatim>\<open>{ success: true, ssoToken, name, accessToken,
  refreshToken }\<close> or \<^verbatim>\<open>{ success: false, error }\<close>.
\<close>

datatype run_result = Succeeded credentials | Failed failure

text \<open>
  \<^verbatim>\<open>
  const ssoResult = await ssoDeviceAuth(ssoToken, 'us-east-1', log)
  if (!ssoResult.success) {
    log(...)
    return { success: false, error: ssoResult.error }
  }
  (the clean-up of the mailbox)
  return { success: true, ssoToken, name: randomName,
           accessToken: ssoResult.accessToken, refreshToken: ssoResult.refreshToken }\<close>
\<close>

definition sso_exchange :: "params \<Rightarrow> jsstring \<Rightarrow> run_result prog" where
  "sso_exchange p token =
     bind (await (SsoDeviceAuth token) as_sso) (\<lambda>ssoResult.
       if \<not> sso_success ssoResult then ret (Failed (SsoFailed (sso_error ssoResult)))
       else
         seq cleanup_mailbox
           (ret (Succeeded \<lparr> c_ssoToken = token, c_name = p_randomName p,
                             c_accessToken = sso_accessToken ssoResult,
                             c_refreshToken = sso_refreshToken ssoResult \<rparr>)))"

text \<open>The \<^verbatim>\<open>try\<close> block up to the classifier; the value is \<^verbatim>\<open>isLoginFlow\<close>.\<close>

definition until_classified :: "params \<Rightarrow> bool prog" where
  "until_classified p =
     bind (resolve_email p) (\<lambda>address.
     seq (open_page p)
    (seq (submit_email address)
         classify))"

text \<open>
  From step 5 to the end of the \<^verbatim>\<open>try\<close> block:
  \<^verbatim>\<open>
  (the loop over the cookies)
  if (!ssoToken) { await browser.close(); browser = null; throw new Error(...) }
  if (testLoginDetection) { (the test) }
  if (!keepBrowserOpen) { await browser.close(); browser = null }
  (the SSO exchange)\<close>
\<close>

definition finish :: "params \<Rightarrow> run_result prog" where
  "finish p =
     bind (harvest_token 0) (\<lambda>harvested.
       case harvested of
         None \<Rightarrow> seq close_browser (throw NoSsoToken)
       | Some token \<Rightarrow>
           if token = [] then seq close_browser (throw NoSsoToken)
           else
             seq (if p_testLoginDetection p then test_login_detection p else ret ())
            (seq (if \<not> p_keepBrowserOpen p then close_browser else ret ())
                 (sso_exchange p token)))"

text \<open>\<^verbatim>\<open>if (isLoginFlow) { (the login branch) } else { (the registration branch) }\<close>, and the rest.\<close>

definition after_classified :: "params \<Rightarrow> bool \<Rightarrow> run_result prog" where
  "after_classified p isLoginFlow =
     seq (if isLoginFlow then login_flow else register_flow (p_randomName p)) (finish p)"

definition register_body :: "params \<Rightarrow> run_result prog" where
  "register_body p = bind (until_classified p) (after_classified p)"

text \<open>
  \<^verbatim>\<open>
  } catch (error) {
    if (browser) { try { await browser.close() } catch {} }
    (the clean-up of the mailbox)
    return { success: false, error: ... }
  }\<close>
\<close>

definition on_error :: "failure \<Rightarrow> run_result prog" where
  "on_error e =
     seq (bind (get browser) (\<lambda>opened. if opened then attempt (await_done CloseBrowser) else ret ()))
    (seq cleanup_mailbox (ret (Failed e)))"

definition initial_world :: "reply list \<Rightarrow> world" where
  "initial_world replies =
     \<lparr> script = replies, trace = [], browser = False, mailService = False, tempMailbox = None \<rparr>"

text \<open>A run of the function against the replies of the environment.\<close>

definition autoRegisterAWS :: "params \<Rightarrow> reply list \<Rightarrow> (failure + run_result) \<times> world" where
  "autoRegisterAWS p replies = try_catch (register_body p) on_error (initial_world replies)"


fun is_delete :: "call \<Rightarrow> bool" where
  "is_delete (DeleteMailbox a) = True"
| "is_delete _ = False"



text \<open>The probes of the fallback of the classifier, in their order.\<close>

definition probe_calls :: "call list" where
  "probe_calls = map IsVisible (nameInputSelectors @ [LoginHeading, EnterPassword])"

text \<open>
  A page on which the race of the detectors times out; a run with a given address on
  which the login heading wins the race, the password is filled in and the click on the
  continue button fails; the same run with a password input that is never found; and a
  registration with a new mailbox that goes through to the
  SSO exchange.
\<close>

definition fallback_world :: world where
  "fallback_world = initial_world [Throws (js ''Timeout 10000ms exceeded'')]"





definition new_mailbox :: "jsstring \<times> jsstring" where
  "new_mailbox = (js ''k3v9@mail.example'', js ''secret'')"

definition mailbox_params :: params where
  "mailbox_params =
     \<lparr> p_email = None, p_testLoginDetection = False,
       p_keepBrowserOpen = False, p_mailServiceEnabled = True,
       p_randomName = js ''Maria Silva'', p_registerUrl = js ''https://view.awsapps.com/start'',
       p_testUrl = js ''https://view.awsapps.com/start'' \<rparr>"

definition password_inputs :: "(jsstring option \<times> bool) list" where
  "password_inputs = [(Some (js ''Enter password''), True), (Some (js ''Re-enter password''), True)]"

definition sso_refused :: sso_result where
  "sso_refused = \<lparr> sso_success = False, sso_accessToken = None, sso_refreshToken = None,
                   sso_error = Some (js ''authorization_pending'') \<rparr>"

definition sso_granted :: sso_result where
  "sso_granted = \<lparr> sso_success = True, sso_accessToken = Some (js ''access''),
                   sso_refreshToken = Some (js ''refresh''), sso_error = None \<rparr>"

definition registration_script :: "reply \<Rightarrow> reply list" where
  "registration_script final =
     [Done, Bool True, Mailbox (Some new_mailbox),
      Done, Done, Done, Done, Done, Done, Done, Done, Done, Done, Done,
      Bool True, Done, Bool True, Done,
      Raced (RaceRegister 0),
      Bool True, Done, Bool True, Done,
      Done, Text (js ''482913''), Bool True, Done, Bool True, Done,
      Done, Inputs password_inputs, Done, Done, Done, Done, Bool True, Done,
      CookieJar [(SSO_COOKIE, js ''token'')], Done, Buttons [],
      Done,
      final]"

definition registration_calls :: "call list" where
  "registration_calls =
     [ImportMailService, CheckHealth, CreateMailbox,
      Launch, NewContext, ClearCookies, ClearPermissions, NewPage, AddInitScript,
      Goto (js ''https://view.awsapps.com/start''), WaitForLoadState, WaitForLoadState,
      WaitForTimeout, RandomPageInteraction,
      WaitAndFill EmailInput (js ''k3v9@mail.example''), WaitForTimeout,
      WaitAndClickWithRetry PrimaryButton, WaitForPageStable,
      RaceDetectors,
      WaitAndFill (NameInput 0) (js ''Maria Silva''), WaitForTimeout,
      WaitAndClickWithRetry SignupNextButton, WaitForPageStable,
      WaitForVisible (CodeInput 0),
      WaitForVerificationCode (js ''k3v9@mail.example'') (js ''secret''),
      WaitAndFill (CodeInput 0) (js ''482913''), WaitForTimeout,
      WaitAndClickWithRetry VerifyButton, WaitForPageStable,
      WaitForTimeout, AllPasswordInputs, FillPasswordInput 0, WaitForTimeout,
      FillPasswordInput 1, WaitForTimeout,
      WaitAndClickWithRetry PrimaryButton, WaitForPageStable,
      Cookies, WaitForTimeout, AllButtons, CloseBrowser,
      SsoDeviceAuth (js ''token'')]"

section \<open>Properties of the account store\<close>

lemma updateAccountStatus_length:
  "length (updateAccountStatus i u accs) = length accs"
  by (simp add: updateAccountStatus_def)

lemma updateAccountStatus_nth:
  "k < length accs \<Longrightarrow>
   updateAccountStatus i u accs ! k =
     (if id (accs ! k) = i then spread (accs ! k) u else accs ! k)"
  by (simp add: updateAccountStatus_def)

lemma updateAccountStatus_absent:
  "i \<notin> id ` set accs \<Longrightarrow> updateAccountStatus i u accs = accs"
  unfolding updateAccountStatus_def by (induction accs) auto

text \<open>
  C10. \<open>updateAccountStatus i u\<close> keeps the length of the account list and the position
  of every account; the account at a position is replaced by its spread with the updates
  when its id is \<open>i\<close> and is left as it is otherwise; the spread takes every key present
  in the updates from the updates and every other field from the account; and when no
  account has id \<open>i\<close> the list is unchanged.
\<close>

theorem updateAccountStatus_frame:
  "length (updateAccountStatus i u accs) = length accs \<and>
   (\<forall>k < length accs.
      (id (accs ! k) = i \<longrightarrow>
         updateAccountStatus i u accs ! k = spread (accs ! k) u) \<and>
      (id (accs ! k) \<noteq> i \<longrightarrow>
         updateAccountStatus i u accs ! k = accs ! k)) \<and>
   (\<forall>acc. id (spread acc u) = (case u_id u of None \<Rightarrow> id acc | Some v \<Rightarrow> v) \<and>
          email (spread acc u) = (case u_email u of None \<Rightarrow> email acc | Some v \<Rightarrow> v) \<and>
          status (spread acc u) = (case u_status u of None \<Rightarrow> status acc | Some v \<Rightarrow> v) \<and>
          awsName (spread acc u) = (case u_awsName u of None \<Rightarrow> awsName acc | Some v \<Rightarrow> v) \<and>
          ssoToken (spread acc u) = (case u_ssoToken u of None \<Rightarrow> ssoToken acc | Some v \<Rightarrow> v) \<and>
          error (spread acc u) = (case u_error u of None \<Rightarrow> error acc | Some v \<Rightarrow> v)) \<and>
   (i \<notin> id ` set accs \<longrightarrow> updateAccountStatus i u accs = accs)"
  by (simp add: updateAccountStatus_length updateAccountStatus_nth
      updateAccountStatus_absent spread_def)


theorem updateAccountStatus_frame_witness:
  "length (updateAccountStatus (js ''a'') (only_status registering) two_accounts) = 2 \<and>
   updateAccountStatus (js ''a'') (only_status registering) two_accounts ! 0 =
     \<lparr> id = js ''a'', email = js ''a@example.com'', status = registering,
       awsName = None, ssoToken = None, error = None \<rparr> \<and>
   updateAccountStatus (js ''a'') (only_status registering) two_accounts ! 1 = two_accounts ! 1 \<and>
   updateAccountStatus (js ''c'') (only_status registering) two_accounts = two_accounts"
proof -
  have ids: "js ''c'' \<notin> id ` set two_accounts" "length two_accounts = 2"
    "id (two_accounts ! 0) = js ''a''" "id (two_accounts ! 1) \<noteq> js ''a''"
    by (simp_all add: two_accounts_def js_def)
  have sp: "spread (two_accounts ! 0) (only_status registering) =
     \<lparr> id = js ''a'', email = js ''a@example.com'', status = registering,
       awsName = None, ssoToken = None, error = None \<rparr>"
    by (simp add: two_accounts_def spread_def only_status_def no_updates_def)
  from updateAccountStatus_frame[of "js ''a''" "only_status registering" two_accounts]
  have a: "length (updateAccountStatus (js ''a'') (only_status registering) two_accounts) = 2"
    "updateAccountStatus (js ''a'') (only_status registering) two_accounts ! 0 =
       spread (two_accounts ! 0) (only_status registering)"
    "updateAccountStatus (js ''a'') (only_status registering) two_accounts ! 1 = two_accounts ! 1"
    using ids by auto
  from updateAccountStatus_frame[of "js ''c''" "only_status registering" two_accounts]
  have c: "updateAccountStatus (js ''c'') (only_status registering) two_accounts = two_accounts"
    using ids(1) by blast
  show ?thesis using a c sp by simp
qed

section \<open>Properties of the fingerprint generator\<close>

lemma power2_less_imp: "(2::nat) ^ a < 2 ^ b \<Longrightarrow> a < b"
  by (rule power_less_imp_less_exp[of 2]) simp_all

lemma bit_length_bounds: "0 < v \<Longrightarrow> 2 ^ (bit_length v - 1) \<le> v \<and> v < 2 ^ bit_length v"
proof (induction v rule: bit_length.induct)
  case (1 n)
  show ?case
  proof (cases "n div 2 = 0")
    case True
    with "1.prems" have "n = 1" by (simp add: div_eq_0_iff)
    then show ?thesis by (simp add: bit_length.simps)
  next
    case False
    then have pos: "0 < n div 2" by simp
    from "1.IH" "1.prems" pos
    have ih: "2 ^ (bit_length (n div 2) - 1) \<le> n div 2" "n div 2 < 2 ^ bit_length (n div 2)"
      by simp_all
    have bl: "bit_length n = Suc (bit_length (n div 2))"
      using "1.prems" by (subst bit_length.simps) simp
    have b1: "0 < bit_length (n div 2)"
      using pos by (subst bit_length.simps) simp
    then have "(2::nat) ^ bit_length (n div 2) = 2 * 2 ^ (bit_length (n div 2) - 1)"
      by (cases "bit_length (n div 2)") simp_all
    with ih show ?thesis unfolding bl by simp arith
  qed
qed

lemma to_double_le:
  assumes "2 ^ 53 \<le> v"
  shows "to_double v * 2 ^ 53 \<le> v * 2 ^ 53 + v"
proof -
  define e where "e = bit_length v - 53"
  define q where "q = v div 2 ^ e"
  define r where "r = v mod 2 ^ e"
  have v: "0 < v" using assms by (simp add: less_le_trans[of 0 "2 ^ 53"])
  from bit_length_bounds[OF v] have lo: "2 ^ (bit_length v - 1) \<le> v" and hi: "v < 2 ^ bit_length v"
    by simp_all
  have "(2::nat) ^ 53 < 2 ^ bit_length v" using assms hi by (rule le_less_trans)
  then have b: "53 < bit_length v" by (rule power2_less_imp)
  then have e: "0 < e" "bit_length v - 1 = (e - 1) + 53" by (simp_all add: e_def)
  have half: "(2::nat) ^ e = 2 * 2 ^ (e - 1)" using e(1) by (cases e) simp_all
  have split: "v = q * 2 ^ e + r" unfolding q_def r_def by (rule div_mult_mod_eq[symmetric])
  have lo': "2 ^ (e - 1) * 2 ^ 53 \<le> v" using lo e(2) by (simp add: power_add)
  have "to_double v \<le> v + 2 ^ (e - 1)"
  proof (cases "2 ^ (e - 1) < r \<or> (r = 2 ^ (e - 1) \<and> odd q)")
    case True
    then have "to_double v = (q + 1) * 2 ^ e"
      using assms by (simp add: to_double_def Let_def e_def[symmetric] q_def[symmetric] r_def[symmetric])
    moreover from True have "2 ^ (e - 1) \<le> r" by auto
    ultimately show ?thesis using split half by (simp add: algebra_simps)
  next
    case False
    then have "to_double v = q * 2 ^ e"
      using assms by (simp add: to_double_def Let_def e_def[symmetric] q_def[symmetric] r_def[symmetric])
    then show ?thesis using split by simp
  qed
  then have "to_double v * 2 ^ 53 \<le> (v + 2 ^ (e - 1)) * 2 ^ 53" by simp
  also have "\<dots> = v * 2 ^ 53 + 2 ^ (e - 1) * 2 ^ 53" by (simp add: algebra_simps)
  also have "\<dots> \<le> v * 2 ^ 53 + v" using lo' by simp
  finally show ?thesis .
qed

lemma floor_times_less:
  assumes "is_unit_double x" "0 < n"
  shows "floor_times x n < n"
proof -
  obtain m j where x: "x = (m, j)" by (cases x)
  from assms(1) x have m: "m < 2 ^ 53" and j: "53 \<le> j" by (simp_all add: is_unit_double_def)
  have p53: "(2::nat) ^ 53 \<le> 2 ^ j" using j by (intro power_increasing) simp_all
  have "to_double (m * n) < n * 2 ^ j"
  proof (cases "m * n < 2 ^ 53")
    case True
    then have "to_double (m * n) = m * n" by (simp add: to_double_def)
    also have "\<dots> < 2 ^ 53 * n" using m assms(2) by simp
    also have "\<dots> \<le> 2 ^ j * n" using p53 by simp
    finally show ?thesis by (simp add: mult.commute)
  next
    case False
    then have big: "2 ^ 53 \<le> m * n" by simp
    have "Suc m \<le> 2 ^ 53" using m by simp
    then have "Suc m * n \<le> 2 ^ 53 * n" by (rule mult_le_mono1)
    then have mn: "m * n + n \<le> 2 ^ 53 * n" by simp
    have "to_double (m * n) * 2 ^ 53 \<le> m * n * 2 ^ 53 + m * n" by (rule to_double_le[OF big])
    also have "\<dots> < m * n * 2 ^ 53 + 2 ^ 53 * n" using m assms(2) by simp
    also have "\<dots> = (m * n + n) * 2 ^ 53" by (simp add: algebra_simps)
    also have "\<dots> \<le> (2 ^ 53 * n) * 2 ^ 53" using mn by (rule mult_le_mono1)
    finally have "to_double (m * n) < 2 ^ 53 * n" by simp
    also have "\<dots> \<le> 2 ^ j * n" using p53 by simp
    finally show ?thesis by (simp add: mult.commute)
  qed
  then show ?thesis
    by (simp add: floor_times_def x less_mult_imp_div_less)
qed

lemma randomChoice_unit:
  assumes "is_unit_double r" "xs \<noteq> []"
  shows "\<exists>k < length xs. randomChoice r xs = Some (xs ! k)"
proof -
  have "floor_times r (length xs) < length xs"
    using assms by (intro floor_times_less) simp_all
  then show ?thesis by (auto simp: randomChoice_def Let_def)
qed

lemma pool_matches:
  "\<forall>ua \<in> set USER_AGENTS.
     (str_includes ua ''iPhone'' \<longrightarrow> getPlatformFromUserAgent ua = ''iPhone'') \<and>
     (str_includes ua ''iPad'' \<longrightarrow> getPlatformFromUserAgent ua = ''iPad'') \<and>
     (str_includes ua ''Android'' \<longrightarrow> getPlatformFromUserAgent ua = ''Linux armv8l'')"
  by code_simp

text \<open>
  C9. Whatever five doubles in \<open>[0, 1)\<close> the calls of \<^verbatim>\<open>Math.random()\<close> return, the
  smart generator returns a fingerprint (every index it computes, a floor of a product of
  doubles, lies inside its array), and in it a userAgent containing \<^verbatim>\<open>iPhone\<close> has platform
  \<^verbatim>\<open>iPhone\<close>, one containing \<^verbatim>\<open>iPad\<close> has platform \<^verbatim>\<open>iPad\<close>, and
  one containing \<^verbatim>\<open>Android\<close> has the Linux platform token \<^verbatim>\<open>Linux armv8l\<close>.
\<close>

theorem smart_fingerprint_platform_matches:
  assumes "unit_draws d"
  shows "\<exists>fp. generateSmartFingerprint d = Some fp \<and> platform_matches fp"
proof -
  obtain k where k: "k < length USER_AGENTS"
      "randomChoice (d_userAgent d) USER_AGENTS = Some (USER_AGENTS ! k)"
    using randomChoice_unit[of "d_userAgent d" USER_AGENTS] assms
    by (auto simp: unit_draws_def USER_AGENTS_def)
  obtain vp where vp: "randomChoice (d_viewport d) VIEWPORTS = Some vp"
    using randomChoice_unit[of "d_viewport d" VIEWPORTS] assms
    by (auto simp: unit_draws_def VIEWPORTS_def)
  obtain lc where lc: "randomChoice (d_locale d) LOCALES = Some lc"
    using randomChoice_unit[of "d_locale d" LOCALES] assms
    by (auto simp: unit_draws_def LOCALES_def)
  obtain tz where tz: "randomChoice (d_timezone d) TIMEZONES = Some tz"
    using randomChoice_unit[of "d_timezone d" TIMEZONES] assms
    by (auto simp: unit_draws_def TIMEZONES_def)
  obtain sf where sf: "randomChoice (d_scale d) DEVICE_SCALE_FACTORS = Some sf"
    using randomChoice_unit[of "d_scale d" DEVICE_SCALE_FACTORS] assms
    by (auto simp: unit_draws_def DEVICE_SCALE_FACTORS_def)
  let ?ua = "USER_AGENTS ! k"
  let ?fp = "\<lparr> userAgent = ?ua, viewport = vp, locale_id = lc, timezone = tz,
               platform = getPlatformFromUserAgent ?ua, deviceScaleFactor = sf \<rparr>"
  have gen: "generateSmartFingerprint d = Some ?fp"
    by (simp add: generateSmartFingerprint_def k vp lc tz sf Let_def)
  have "?ua \<in> set USER_AGENTS" using k(1) by simp
  then have "platform_matches ?fp"
    using pool_matches by (simp add: platform_matches_def)
  with gen show ?thesis by blast
qed

lemma bit_length_eq:
  assumes "2 ^ (k - 1) \<le> v" "v < 2 ^ k" "0 < k"
  shows "bit_length v = k"
proof -
  have v: "0 < v" using assms(1) by (simp add: less_le_trans[of 0 "2 ^ (k - 1)"])
  from bit_length_bounds[OF v] have lo: "2 ^ (bit_length v - 1) \<le> v" and hi: "v < 2 ^ bit_length v"
    by simp_all
  have "(2::nat) ^ (bit_length v - 1) < 2 ^ k" using lo assms(2) by (rule le_less_trans)
  then have 1: "bit_length v - 1 < k" by (rule power2_less_imp)
  have "(2::nat) ^ (k - 1) < 2 ^ bit_length v" using assms(1) hi by (rule le_less_trans)
  then have 2: "k - 1 < bit_length v" by (rule power2_less_imp)
  from 1 2 assms(3) show ?thesis by simp
qed

lemma sample_product: "floor_times (7505999378950826, 53) 12 = 10"
proof -
  have "bit_length 90071992547409912 = 57"
    by (rule bit_length_eq) simp_all
  then show ?thesis
    by (simp add: floor_times_def to_double_def Let_def)
qed

lemma sample_choice:
  "randomChoice (d_userAgent sample_draws) USER_AGENTS = Some (USER_AGENTS ! 10)"
proof -
  have "length USER_AGENTS = 12" by (simp add: USER_AGENTS_def)
  then show ?thesis by (simp add: randomChoice_def sample_draws_def sample_product)
qed

theorem smart_fingerprint_platform_matches_witness:
  "unit_draws sample_draws \<and>
   (\<exists>fp. generateSmartFingerprint sample_draws = Some fp \<and>
         str_includes (userAgent fp) ''iPad'' \<and> platform fp = ''iPad'')"
proof -
  have u: "unit_draws sample_draws"
    by (simp add: unit_draws_def sample_draws_def is_unit_double_def)
  from smart_fingerprint_platform_matches[OF u] obtain fp where
    fp: "generateSmartFingerprint sample_draws = Some fp" "platform_matches fp" by blast
  from fp(1) have "userAgent fp = USER_AGENTS ! 10"
    by (auto simp: generateSmartFingerprint_def sample_choice Let_def Option.bind_eq_Some_conv)
  moreover have "str_includes (USER_AGENTS ! 10) ''iPad''"
    by code_simp
  ultimately have inc: "str_includes (userAgent fp) ''iPad''" by simp
  with fp(2) have "platform fp = ''iPad''" by (simp add: platform_matches_def)
  with u fp(1) inc show ?thesis by blast
qed

section \<open>Properties of the extractor\<close>

lemma rep_6: "rep 6 r = seqs [r, r, r, r, r, r]"
  by (simp add: rep_def numeral_eq_Suc)

lemma rep_7: "rep 7 r = seqs [r, r, r, r, r, r, r]"
  by (simp add: rep_def numeral_eq_Suc)

lemmas rx_defs = extractCode_def CODE_PATTERNS_def js_def is_digit_def is_space_def is_word_def
  is_line_terminator_def canonicalize_def rep_6 rep_7 colon_or_space_def six_digits_def
  flags_gi_def flags_gm_def flags_g_def flags_i_def js_slice_def rx_six_only_def rx_color_def
  rx_rgb_def rx_seven_digits_def excluded_def accepted_def rx_test_def
  htmlToText_def js_replace_def plus_def js_trim_def capture_of_def fromCharCode_def
  parseInt_def is_hex_digit_def digit_value_def scan_codes.simps

text \<open>A match never ends before it starts, and a consuming expression moves on.\<close>

lemma lit_match_length:
  "lit_match ic s st = Some st' \<Longrightarrow> length (snd (snd st')) + length s = length (snd (snd st))"
  by (induction ic s st rule: lit_match.induct) (auto split: if_splits)

lemma star_greedy_length:
  "st' \<in> set (star_greedy p st) \<Longrightarrow> length (snd (snd st')) \<le> length (snd (snd st))"
  by (induction p st rule: star_greedy.induct) (auto split: if_splits)

lemma star_lazy_length:
  "st' \<in> set (star_lazy p st) \<Longrightarrow> length (snd (snd st')) \<le> length (snd (snd st))"
  by (induction p st rule: star_lazy.induct) (auto split: if_splits)

lemma rx_match_length:
  "(st', cap') \<in> set (rx_match f r st cap) \<Longrightarrow>
   length (snd (snd st')) \<le> length (snd (snd st)) \<and>
   (consumes r \<longrightarrow> length (snd (snd st')) < length (snd (snd st)))"
proof (induction f r st cap arbitrary: st' cap' rule: rx_match.induct)
  case (1 f s st cap)
  then show ?case using lit_match_length[of "ignoreCase f" s st st']
    by (cases s) (auto split: option.splits)
next
  case (3 f a b st cap)
  from "3.prems" obtain st1 cap1 where
    a: "(st1, cap1) \<in> set (rx_match f a st cap)" and
    b: "(st', cap') \<in> set (rx_match f b st1 cap1)" by auto
  from "3.IH"(1)[OF a] "3.IH"(2)[OF a refl b] show ?case by auto
next
  case (5 f p st cap)
  then show ?case using star_greedy_length[of st' p st] by auto
next
  case (6 f p st cap)
  then show ?case using star_lazy_length[of st' p st] by auto
next
  case (7 f r prev i rest cap)
  then show ?case by fastforce
qed (auto split: list.splits option.splits if_splits simp: Let_def)

lemma rx_search_length:
  "rx_search f r st = Some (index, st', cap) \<Longrightarrow>
   length (snd (snd st')) \<le> length (snd (snd st)) \<and>
   (consumes r \<longrightarrow> length (snd (snd st')) < length (snd (snd st)))"
proof (induction f r st rule: rx_search.induct)
  case (1 f r prev i)
  then show ?case
    using rx_match_length[of st' cap f r "(prev, i, [])" None]
    by (auto split: list.splits)
next
  case (2 f r prev i c cs)
  show ?case
  proof (cases "rx_match f r (prev, i, c # cs) None")
    case Nil
    with 2 show ?thesis by auto
  next
    case (Cons x xs)
    with "2.prems" have "x = (st', cap)" by (cases x) auto
    with Cons have "(st', cap) \<in> set (rx_match f r (prev, i, c # cs) None)" by simp
    from rx_match_length[OF this] show ?thesis by simp
  qed
qed

lemma scan_codes_returns:
  "consumes r \<Longrightarrow> scan_codes f r t st \<noteq> Hangs"
proof (induction f r t st rule: scan_codes.induct)
  case (1 f r t prev i rest)
  show ?case
  proof (cases "rx_search f r (prev, i, rest)")
    case None
    then show ?thesis by (simp add: scan_codes.simps)
  next
    case (Some m)
    obtain index prev' e rest' cap where m: "m = (index, (prev', e, rest'), cap)"
      by (cases m) auto
    from rx_search_length[of f r "(prev, i, rest)" index "(prev', e, rest')" cap] Some m "1.prems"
    have lt: "length rest' < length rest" by simp
    show ?thesis
    proof (cases "accepted t index e cap")
      case True
      then show ?thesis using Some m by (simp add: scan_codes.simps)
    next
      case False
      have "scan_codes f r t (prev', e, rest') \<noteq> Hangs"
        using "1.IH"[OF Some[unfolded m] refl refl refl refl False lt "1.prems"] .
      then show ?thesis using Some m lt False by (simp add: scan_codes.simps)
    qed
  qed
qed

lemma try_patterns_returns:
  "\<forall>(f, r) \<in> set ps. consumes r \<Longrightarrow> try_patterns ps t \<noteq> Hangs"
proof (induction ps t rule: try_patterns.induct)
  case (1 t)
  then show ?case by simp
next
  case (2 f r ps t)
  then show ?case
    using scan_codes_returns[of r f t "(None, 0, t)"]
    by (auto split: code_result.splits)
qed

lemma extractCode_returns: "extractCode text \<noteq> Hangs"
  unfolding extractCode_def
  using try_patterns_returns[of CODE_PATTERNS "text"]
  by (simp add: CODE_PATTERNS_def six_digits_def rep_6)

text \<open>
  C5. \<^verbatim>\<open>extractCode("Your verification code is 482913")\<close> is \<^verbatim>\<open>"482913"\<close>,
  \<^verbatim>\<open>extractCode("#482913 background")\<close> is \<^verbatim>\<open>null\<close> and
  \<^verbatim>\<open>extractCode("order number 4829135")\<close> is \<^verbatim>\<open>null\<close>.
\<close>

theorem extractCode_examples:
  "extractCode (js ''Your verification code is 482913'') = Code (js ''482913'') \<and>
   extractCode (js ''#482913 background'') = Null \<and>
   extractCode (js ''order number 4829135'') = Null"
  by (simp add: rx_defs)

section \<open>Properties of the mailbox backends\<close>

lemma sample_stripped: "htmlToText sample_html = sample_text"
  by (simp add: sample_html_def sample_text_def rx_defs)

lemma sample_code: "extractCode sample_text = Code (js ''482913'')"
  by (simp add: sample_text_def rx_defs)

lemma sample_distinct:
  "sample_html \<noteq> sample_text" "sample_text \<noteq> []" "sample_html \<noteq> []"
  "sample_html \<noteq> 10 # sample_html" "sample_text \<noteq> 10 # sample_html"
  by (simp_all add: sample_html_def sample_text_def js_def)

lemma sample_graph_calls:
  "extract_from_mail sample_graph_mail = (Code (js ''482913''), [sample_text])"
  by (simp add: extract_from_mail_def sample_graph_mail_def or_empty_def sample_stripped
      sample_code falsy_def Let_def sample_distinct js_def)

text \<open>
  C4 as stated fails: for the sample mail the Graph-refresh backend calls the extractor
  on the stripped text only, not on the HTML body; and the disposable-mailbox backend
  calls it neither on the HTML part nor on the stripped HTML part, but on one joined
  string.
\<close>

theorem extractor_inputs_counterexample:
  "or_empty (body_content sample_graph_mail) \<notin> set (snd (extract_from_mail sample_graph_mail)) \<and>
   or_empty (detail_html sample_detail) \<notin> set (snd (extract_from_detail sample_detail)) \<and>
   htmlToText (or_empty (detail_html sample_detail)) \<notin> set (snd (extract_from_detail sample_detail))"
proof -
  have body: "or_empty (body_content sample_graph_mail) = sample_html"
    by (simp add: sample_graph_mail_def or_empty_def)
  have html: "or_empty (detail_html sample_detail) = sample_html"
    by (simp add: sample_detail_def or_empty_def)
  have calls: "snd (extract_from_detail sample_detail) = [10 # sample_html]"
    by (simp add: extract_from_detail_def sample_detail_def or_empty_def Let_def)
  show ?thesis
    by (simp add: body html calls sample_graph_calls sample_stripped sample_distinct)
qed

text \<open>
  C4, amended. For every mail the Graph-refresh backend inspects, the extractor is called
  on the markup-stripped body first (when that is not empty); only when this gives no
  code is it called on the HTML body, and only when that gives no code either on the body
  preview; the code of the mail is the first code found. For every mail the
  disposable-mailbox backend inspects, the extractor is called once, on the text part, a
  newline and the HTML part joined, and the markup is not stripped.
\<close>

theorem extractor_inputs:
  "extract_from_mail mail =
     (let content = or_empty (body_content mail);
          stripped = htmlToText content;
          preview = or_empty (bodyPreview mail);
          c1 = (if stripped = [] then Null else extractCode stripped)
      in (first_code c1 (first_code (extractCode content) (extractCode preview)),
          (if stripped = [] then [] else [stripped]) @
          (if falsy c1 then content # (if falsy (extractCode content) then [preview] else [])
           else []))) \<and>
   extract_from_detail detail =
     (extractCode (or_empty (detail_text detail) @ [10] @ or_empty (detail_html detail)),
      [or_empty (detail_text detail) @ [10] @ or_empty (detail_html detail)])"
  using extractCode_returns
  by (auto simp: extract_from_mail_def extract_from_detail_def Let_def first_code_def falsy_def
      split: code_result.splits)

lemma cycle_token_fails:
  assumes "token_fails (token_consumers cy)" "token_fails (token_common cy)"
  shows "graph_cycle_step cy ids = (Return None, [TokenPost 0, TokenPost 1])"
  using assms by (auto simp: graph_cycle_step_def token_fails_def)

lemma cycle_mail_fails:
  assumes "token_granted cy" "mail_fails (mail_list cy)"
  shows "graph_cycle_step cy ids = (Again ids, token_posts cy @ [MailGet, Sleep checkInterval])"
  using assms
  by (auto simp: graph_cycle_step_def token_granted_def mail_fails_def token_posts_def
           split: prod.splits option.splits)

lemma refresh_token_posts:
  "filter (\<lambda>ev. ev = MailGet) (snd (refresh_token attempts)) = []"
  by (induction attempts rule: refresh_token.induct) (auto split: token_reply.splits prod.splits)

lemma retry_count_step:
  fixes d p :: nat
  assumes "0 < d" "0 < p"
  shows "(d + p - 1) div p = Suc ((d - p + p - 1) div p)"
proof -
  have a: "d + p - 1 = (d - 1) + p" using assms by simp
  have b: "((d - 1) + p) div p = Suc ((d - 1) div p)"
    using assms(2) div_add_self2[of p "d - 1"] by simp
  have c: "(d - p + p - 1) div p = (d - 1) div p"
  proof (cases "p \<le> d")
    case True
    then have "d - p + p - 1 = d - 1" by simp
    then show ?thesis by (simp only:)
  next
    case False
    then have "d - p + p - 1 = p - 1" by simp
    moreover have "(p - 1) div p = 0" using assms(2) by simp
    moreover have "(d - 1) div p = 0" using False by simp
    ultimately show ?thesis by (simp only:)
  qed
  show ?thesis by (simp only: a b c)
qed

lemma poll_all_mail_fail:
  assumes env: "\<And>j. token_granted (env j) \<and> mail_fails (mail_list (env j)) \<and> elapsed (env j) = e"
  shows "fst (poll_graph env budget t k ids) = Returns None \<and>
         length (filter (\<lambda>ev. ev = MailGet) (snd (poll_graph env budget t k ids))) =
           (budget - t + (e + checkInterval) - 1) div (e + checkInterval)"
proof (induction "budget - t" arbitrary: t k rule: less_induct)
  case less
  define p where "p = e + checkInterval"
  have p: "0 < p" by (simp add: p_def checkInterval_def)
  show ?case
  proof (cases "t < budget")
    case False
    then have "poll_graph env budget t k ids = (Returns None, [])"
      by (subst poll_graph.simps) simp
    moreover have "(budget - t + p - 1) div p = 0" using False p by simp
    ultimately show ?thesis by (simp add: p_def)
  next
    case True
    define rec where "rec = poll_graph env budget (t + p) (Suc k) ids"
    have cy: "graph_cycle_step (env k) ids =
        (Again ids, token_posts (env k) @ [MailGet, Sleep checkInterval])"
      using env[of k] by (simp add: cycle_mail_fails)
    have el: "t + elapsed (env k) + checkInterval = t + p"
      using env[of k] by (simp add: p_def)
    have step: "poll_graph env budget t k ids =
        (fst rec, token_posts (env k) @ [MailGet, Sleep checkInterval] @ snd rec)"
      unfolding rec_def
      by (subst poll_graph.simps) (simp add: True cy el split: prod.splits)
    have "budget - (t + p) < budget - t" using True p by arith
    from less[OF this, of "Suc k"] have
      ih: "fst rec = Returns None"
          "length (filter (\<lambda>ev. ev = MailGet) (snd rec)) = (budget - (t + p) + p - 1) div p"
      by (simp_all add: rec_def p_def)
    have sub: "budget - (t + p) = (budget - t) - p" by simp
    have "0 < budget - t" using True by simp
    from retry_count_step[OF this p]
    have cnt: "(budget - t + p - 1) div p = Suc ((budget - (t + p) + p - 1) div p)"
      by (simp only: sub)
    have posts: "filter (\<lambda>ev. ev = MailGet) (token_posts (env k)) = []"
      unfolding token_posts_def by (rule refresh_token_posts)
    have "length (filter (\<lambda>ev. ev = MailGet) (snd (poll_graph env budget t k ids))) =
          Suc (length (filter (\<lambda>ev. ev = MailGet) (snd rec)))"
      by (simp add: step posts)
    with ih cnt step show ?thesis by (simp add: p_def)
  qed
qed


text \<open>
  C8. In a pass of the poll loop that starts within the budget: when the token request
  fails at both endpoints the function returns \<^verbatim>\<open>null\<close> at once, after the two token
  requests and nothing else; when a token was granted and the message list request is not
  ok or throws, the pass sleeps one \<open>checkInterval\<close> and the loop goes on with the next
  pass. A pass that starts at or after the budget returns \<^verbatim>\<open>null\<close>. And the budget is
  the only bound: when every pass fails at the message list and takes \<open>e\<close> milliseconds,
  the function returns \<^verbatim>\<open>null\<close> after as many message list requests as passes of
  \<open>e + checkInterval\<close> milliseconds start within the budget.
\<close>

theorem graph_poll_failure_classes:
  "(t < budget \<and> token_fails (token_consumers (env k)) \<and> token_fails (token_common (env k)) \<longrightarrow>
      poll_graph env budget t k ids = (Returns None, [TokenPost 0, TokenPost 1])) \<and>
   (t < budget \<and> token_granted (env k) \<and> mail_fails (mail_list (env k)) \<longrightarrow>
      poll_graph env budget t k ids =
        (fst (poll_graph env budget (t + elapsed (env k) + checkInterval) (Suc k) ids),
         token_posts (env k) @ [MailGet, Sleep checkInterval] @
         snd (poll_graph env budget (t + elapsed (env k) + checkInterval) (Suc k) ids))) \<and>
   (budget \<le> t \<longrightarrow> poll_graph env budget t k ids = (Returns None, [])) \<and>
   ((\<forall>j. token_granted (env j) \<and> mail_fails (mail_list (env j)) \<and> elapsed (env j) = e) \<longrightarrow>
      fst (poll_graph env budget t k ids) = Returns None \<and>
      length (filter (\<lambda>ev. ev = MailGet) (snd (poll_graph env budget t k ids))) =
        (budget - t + (e + checkInterval) - 1) div (e + checkInterval))"
proof (intro conjI impI)
  assume "t < budget \<and> token_fails (token_consumers (env k)) \<and> token_fails (token_common (env k))"
  then show "poll_graph env budget t k ids = (Returns None, [TokenPost 0, TokenPost 1])"
    by (subst poll_graph.simps) (simp add: cycle_token_fails)
next
  assume "t < budget \<and> token_granted (env k) \<and> mail_fails (mail_list (env k))"
  then show "poll_graph env budget t k ids =
        (fst (poll_graph env budget (t + elapsed (env k) + checkInterval) (Suc k) ids),
         token_posts (env k) @ [MailGet, Sleep checkInterval] @
         snd (poll_graph env budget (t + elapsed (env k) + checkInterval) (Suc k) ids))"
    by (subst poll_graph.simps) (simp add: cycle_mail_fails split: prod.splits)
next
  assume "budget \<le> t"
  then show "poll_graph env budget t k ids = (Returns None, [])"
    by (subst poll_graph.simps) simp
next
  assume a: "\<forall>j. token_granted (env j) \<and> mail_fails (mail_list (env j)) \<and> elapsed (env j) = e"
  then show "fst (poll_graph env budget t k ids) = Returns None"
    using poll_all_mail_fail[of env e budget t k ids] by blast
next
  assume a: "\<forall>j. token_granted (env j) \<and> mail_fails (mail_list (env j)) \<and> elapsed (env j) = e"
  then show "length (filter (\<lambda>ev. ev = MailGet) (snd (poll_graph env budget t k ids))) =
        (budget - t + (e + checkInterval) - 1) div (e + checkInterval)"
    using poll_all_mail_fail[of env e budget t k ids] by blast
qed

theorem graph_poll_failure_classes_witness:
  "getOutlookVerificationCode tokens_down 120 = (Returns None, [TokenPost 0, TokenPost 1]) \<and>
   fst (getOutlookVerificationCode mail_down 12) = Returns None \<and>
   length (filter (\<lambda>ev. ev = MailGet) (snd (getOutlookVerificationCode mail_down 12))) = 2"
proof -
  have down: "token_fails (token_consumers (tokens_down 0))"
    "token_fails (token_common (tokens_down 0))"
    by (simp_all add: tokens_down_def token_fails_def)
  have mail: "\<forall>j. token_granted (mail_down j) \<and> mail_fails (mail_list (mail_down j)) \<and>
                  elapsed (mail_down j) = 1000"
    by (simp add: mail_down_def token_granted_def mail_fails_def js_def)
  have n: "(12 * 1000 - 0 + (1000 + checkInterval) - 1) div (1000 + checkInterval) = (2::nat)"
    by (simp add: checkInterval_def)
  from graph_poll_failure_classes[of 0 "120 * 1000" tokens_down 0 "{}" 0] down
  have a: "poll_graph tokens_down (120 * 1000) 0 0 {} = (Returns None, [TokenPost 0, TokenPost 1])"
    by simp
  from graph_poll_failure_classes[of 0 "12 * 1000" mail_down 0 "{}" 1000] mail
  have b: "fst (poll_graph mail_down (12 * 1000) 0 0 {}) = Returns None"
    "length (filter (\<lambda>ev. ev = MailGet) (snd (poll_graph mail_down (12 * 1000) 0 0 {}))) =
       (12 * 1000 - 0 + (1000 + checkInterval) - 1) div (1000 + checkInterval)"
    by blast+
  show ?thesis
    unfolding getOutlookVerificationCode_def using a b n by simp
qed

section \<open>Properties of the concurrency orchestrator\<close>

lemma begin_fields:
  "running (registerSingleAccount_begin a cfg) = running cfg"
  "queue (registerSingleAccount_begin a cfg) = queue cfg"
  "shouldStop (registerSingleAccount_begin a cfg) = shouldStop cfg"
  "loop_at (registerSingleAccount_begin a cfg) = loop_at cfg"
  "\<exists>ph. ph \<noteq> Resolved \<and>
        tasks (registerSingleAccount_begin a cfg) = tasks cfg @ [\<lparr> t_account = a, t_phase = ph \<rparr>]"
  by (auto simp: registerSingleAccount_begin_def)

lemma pool_inv_push:
  assumes inv: "pool_inv n P (a # q) cfg" and room: "length (running cfg) < n"
  shows "pool_inv n P q
           ((registerSingleAccount_begin a cfg)
              \<lparr> running := running (registerSingleAccount_begin a cfg) @ [length (tasks cfg)] \<rparr>)"
proof -
  obtain ph where ph: "ph \<noteq> Resolved"
    "tasks (registerSingleAccount_begin a cfg) = tasks cfg @ [\<lparr> t_account = a, t_phase = ph \<rparr>]"
    using begin_fields(5) by blast
  let ?ts = "tasks cfg @ [\<lparr> t_account = a, t_phase = ph \<rparr>]"
  have set_run: "set (running cfg) = {i. i < length (tasks cfg) \<and> t_phase (tasks cfg ! i) \<noteq> Resolved}"
    using inv by (simp add: pool_inv_def)
  have fresh: "length (tasks cfg) \<notin> set (running cfg)" using set_run by simp
  have "{i. i < length ?ts \<and> t_phase (?ts ! i) \<noteq> Resolved} =
        insert (length (tasks cfg)) {i. i < length (tasks cfg) \<and> t_phase (tasks cfg ! i) \<noteq> Resolved}"
    using ph(1) by (auto simp: nth_append less_Suc_eq)
  then show ?thesis
    using inv room fresh ph
    by (simp add: pool_inv_def begin_fields(1))
qed

lemma fill_inv:
  "pool_inv n P q cfg \<Longrightarrow>
   pool_inv n P (queue (fill n q cfg)) (fill n q cfg) \<and>
   shouldStop (fill n q cfg) = shouldStop cfg \<and>
   length (running cfg) \<le> length (running (fill n q cfg)) \<and>
   (running (fill n q cfg) = [] \<longrightarrow> queue (fill n q cfg) = q)"
proof (induction n q cfg rule: fill.induct)
  case (1 concurrency cfg)
  then show ?case by (simp add: pool_inv_def)
next
  case (2 concurrency account rest cfg)
  show ?case
  proof (cases "length (running cfg) < concurrency")
    case True
    define cfg' where "cfg' = (registerSingleAccount_begin account cfg)
              \<lparr> running := running (registerSingleAccount_begin account cfg) @ [length (tasks cfg)] \<rparr>"
    have inv': "pool_inv concurrency P rest cfg'"
      unfolding cfg'_def using pool_inv_push[OF "2.prems" True] .
    have eq: "fill concurrency (account # rest) cfg = fill concurrency rest cfg'"
      using True by (simp add: cfg'_def Let_def)
    have sc: "shouldStop cfg' = shouldStop cfg" "length (running cfg') = Suc (length (running cfg))"
      by (simp_all add: cfg'_def begin_fields)
    from "2.IH"[OF True refl refl] inv' have ih:
      "pool_inv concurrency P (queue (fill concurrency rest cfg')) (fill concurrency rest cfg')"
      "shouldStop (fill concurrency rest cfg') = shouldStop cfg'"
      "length (running cfg') \<le> length (running (fill concurrency rest cfg'))"
      by (simp_all add: cfg'_def)
    from ih(3) sc(2) have ne: "running (fill concurrency rest cfg') \<noteq> []" by auto
    show ?thesis
      unfolding eq using ih sc ne by simp
  next
    case False
    then have eq: "fill concurrency (account # rest) cfg = cfg \<lparr> queue := account # rest \<rparr>"
      by simp
    show ?thesis unfolding eq using "2.prems" by (simp add: pool_inv_def)
  qed
qed

lemma loop_head_ok:
  assumes "pool_inv n P (queue cfg) cfg"
  shows "pool_ok n P (loop_head n cfg)"
proof (cases "queue cfg \<noteq> [] \<or> running cfg \<noteq> []")
  case False
  then have "loop_head n cfg = cfg \<lparr> loop_at := Exited \<rparr>" by (simp add: loop_head_def)
  then show ?thesis using assms False by (simp add: pool_ok_def pool_inv_def)
next
  case busy: True
  show ?thesis
  proof (cases "shouldStop cfg")
    case True
    then have "loop_head n cfg = cfg \<lparr> loop_at := Exited \<rparr>" using busy by (simp add: loop_head_def)
    then show ?thesis using assms True by (simp add: pool_ok_def pool_inv_def)
  next
    case False
    define f where "f = fill n (queue cfg) cfg"
    from fill_inv[OF assms] have inv: "pool_inv n P (queue f) f"
      by (simp add: f_def)
    have lh: "loop_head n cfg =
        (if running f \<noteq> [] then f \<lparr> loop_at := Awaiting (running f) \<rparr>
         else if queue f = [] then f \<lparr> loop_at := Exited \<rparr>
         else f \<lparr> loop_at := Spinning \<rparr>)"
      using busy False by (simp add: loop_head_def f_def Let_def)
    have core: "\<And>l. pool_inv n P (queue f) (f \<lparr> loop_at := l \<rparr>)"
      using inv by (simp add: pool_inv_def)
    show ?thesis
    proof (cases "running f \<noteq> []")
      case True
      then show ?thesis unfolding lh pool_ok_def using core[of "Awaiting (running f)"] by simp
    next
      case nr: False
      show ?thesis
      proof (cases "queue f = []")
        case True
        then show ?thesis unfolding lh pool_ok_def using core[of Exited] nr by simp
      next
        case False
        then show ?thesis unfolding lh pool_ok_def using core[of Spinning] nr by simp
      qed
    qed
  qed
qed

lemma phase_of_accounts [simp]: "phase_of (cfg \<lparr> accounts := accs \<rparr>) tid = phase_of cfg tid"
  by (simp add: phase_of_def)

lemma phase_of_Some: "phase_of cfg tid = Some ph \<longleftrightarrow> tid < length (tasks cfg) \<and> t_phase (tasks cfg ! tid) = ph"
  by (simp add: phase_of_def)

lemma set_phase_fields:
  "running (set_phase tid ph cfg) = running cfg"
  "queue (set_phase tid ph cfg) = queue cfg"
  "shouldStop (set_phase tid ph cfg) = shouldStop cfg"
  "loop_at (set_phase tid ph cfg) = loop_at cfg"
  "accounts (set_phase tid ph cfg) = accounts cfg"
  "length (tasks (set_phase tid ph cfg)) = length (tasks cfg)"
  by (simp_all add: set_phase_def)

lemma set_phase_accounts_of_tasks:
  "map t_account (tasks (set_phase tid ph cfg)) = map t_account (tasks cfg)"
proof -
  let ?xs = "tasks cfg"
  have "map t_account (?xs[tid := (?xs ! tid) \<lparr> t_phase := ph \<rparr>]) =
        (map t_account ?xs)[tid := t_account (?xs ! tid)]"
    by (simp add: map_update)
  also have "\<dots> = map t_account ?xs"
  proof (cases "tid < length ?xs")
    case True
    then have "t_account (?xs ! tid) = map t_account ?xs ! tid" by simp
    then show ?thesis by (metis list_update_id)
  next
    case False
    then have "length (map t_account ?xs) \<le> tid" by simp
    then show ?thesis by (rule list_update_beyond)
  qed
  finally show ?thesis by (simp add: set_phase_def)
qed

lemma set_phase_nth:
  "i < length (tasks cfg) \<Longrightarrow>
   t_phase (tasks (set_phase tid ph cfg) ! i) = (if i = tid then ph else t_phase (tasks cfg ! i))"
  by (cases "i = tid") (simp_all add: set_phase_def)

lemma pool_inv_set_phase:
  assumes "pool_inv n P q cfg" "phase_of cfg tid = Some old" "old \<noteq> Resolved" "ph \<noteq> Resolved"
  shows "pool_inv n P q (set_phase tid ph cfg)"
proof -
  have "{i. i < length (tasks cfg) \<and> t_phase (tasks (set_phase tid ph cfg) ! i) \<noteq> Resolved} =
        {i. i < length (tasks cfg) \<and> t_phase (tasks cfg ! i) \<noteq> Resolved}"
    using assms(2,3,4) by (auto simp: set_phase_nth phase_of_Some split: if_splits)
  then show ?thesis using assms(1)
    by (simp add: pool_inv_def set_phase_fields set_phase_accounts_of_tasks)
qed

lemma pool_inv_resolve:
  assumes "pool_inv n P q cfg" "phase_of cfg tid = Some Settled"
  shows "pool_inv n P q (set_phase tid Resolved (cfg \<lparr> running := remove1 tid (running cfg) \<rparr>))"
proof -
  define c where "c = cfg \<lparr> running := remove1 tid (running cfg) \<rparr>"
  have c: "tasks c = tasks cfg" "running c = remove1 tid (running cfg)"
    by (simp_all add: c_def)
  have tid: "tid < length (tasks cfg)" using assms(2) by (simp add: phase_of_Some)
  have "{i. i < length (tasks cfg) \<and> t_phase (tasks (set_phase tid Resolved c) ! i) \<noteq> Resolved} =
        {i. i < length (tasks cfg) \<and> t_phase (tasks cfg ! i) \<noteq> Resolved} - {tid}"
    using set_phase_nth[of _ c tid Resolved] c(1) by (auto split: if_splits)
  moreover have "length (remove1 tid (running cfg)) \<le> length (running cfg)"
    by (simp add: length_remove1)
  moreover have "distinct (running cfg)"
    "set (running cfg) = {i. i < length (tasks cfg) \<and> t_phase (tasks cfg ! i) \<noteq> Resolved}"
    "length (running cfg) \<le> n" "map t_account (tasks cfg) @ q = P"
    using assms(1) by (simp_all add: pool_inv_def)
  ultimately show ?thesis
    unfolding c_def[symmetric] pool_inv_def
    by (simp add: set_phase_fields set_phase_accounts_of_tasks c)
qed

lemma result_fields:
  "running (registerSingleAccount_result tid reply cfg) = running cfg"
  "queue (registerSingleAccount_result tid reply cfg) = queue cfg"
  "shouldStop (registerSingleAccount_result tid reply cfg) = shouldStop cfg"
  "loop_at (registerSingleAccount_result tid reply cfg) = loop_at cfg"
  by (simp_all add: registerSingleAccount_result_def set_phase_fields)

lemma result_phase_pending: "result_phase reply \<noteq> Resolved"
  by (cases reply) simp_all

lemma result_as_set_phase:
  "\<exists>ph accs. ph \<noteq> Resolved \<and>
     registerSingleAccount_result tid reply cfg = set_phase tid ph (cfg \<lparr> accounts := accs \<rparr>)"
  unfolding registerSingleAccount_result_def using result_phase_pending by blast

lemma pool_inv_accounts:
  "pool_inv n P q (cfg \<lparr> accounts := accs \<rparr>) = pool_inv n P q cfg"
  by (simp add: pool_inv_def)

lemma step_ok:
  assumes "pool_ok n P cfg" "step n ev cfg = Some cfg'"
  shows "pool_ok n P cfg'"
proof (cases ev)
  case (AutoRegisterSettles tid reply)
  with assms(2) have ph: "phase_of cfg tid = Some Registering"
    and cfg': "cfg' = registerSingleAccount_result tid reply cfg"
    by (simp_all split: if_splits)
  obtain ph' accs where r: "ph' \<noteq> Resolved"
    "registerSingleAccount_result tid reply cfg = set_phase tid ph' (cfg \<lparr> accounts := accs \<rparr>)"
    using result_as_set_phase by blast
  have ph2: "phase_of (cfg \<lparr> accounts := accs \<rparr>) tid = Some Registering"
    using ph by simp
  have "pool_inv n P (queue cfg) (cfg \<lparr> accounts := accs \<rparr>)"
    using assms(1) by (simp add: pool_ok_def pool_inv_accounts)
  from pool_inv_set_phase[OF this ph2 _ r(1)]
  have "pool_inv n P (queue cfg) (set_phase tid ph' (cfg \<lparr> accounts := accs \<rparr>))"
    by simp
  then show ?thesis using assms(1) cfg' r(2)
    by (simp add: pool_ok_def set_phase_fields)
next
  case (ImportSettles tid)
  with assms(2) have ph: "phase_of cfg tid = Some Importing"
    and cfg': "cfg' = set_phase tid Settled cfg"
    by (simp_all split: if_splits)
  have "pool_inv n P (queue cfg) cfg" using assms(1) by (simp add: pool_ok_def)
  from pool_inv_set_phase[OF this ph]
  have "pool_inv n P (queue cfg) (set_phase tid Settled cfg)" by simp
  then show ?thesis using assms(1) cfg' by (simp add: pool_ok_def set_phase_fields)
next
  case (ThenCallback tid)
  with assms(2) have ph: "phase_of cfg tid = Some Settled"
    and cfg': "cfg' = set_phase tid Resolved (cfg \<lparr> running := remove1 tid (running cfg) \<rparr>)"
    by (simp_all split: if_splits)
  have "pool_inv n P (queue cfg) cfg" using assms(1) by (simp add: pool_ok_def)
  from pool_inv_resolve[OF this ph]
  have "pool_inv n P (queue cfg) cfg'" by (simp add: cfg')
  moreover have "running cfg = [] \<Longrightarrow> running cfg' = []" by (simp add: cfg' set_phase_fields)
  ultimately show ?thesis using assms(1) by (auto simp: pool_ok_def cfg' set_phase_fields)
next
  case Resume
  with assms(2) have cfg': "cfg' = loop_head n cfg" by (simp split: loop_state.splits if_splits)
  have "pool_inv n P (queue cfg) cfg" using assms(1) by (simp add: pool_ok_def)
  from loop_head_ok[OF this] show ?thesis by (simp only: cfg')
next
  case RequestStop
  with assms(2) have "cfg' = cfg \<lparr> shouldStop := True \<rparr>" by simp
  then show ?thesis using assms(1) by (simp add: pool_ok_def pool_inv_def)
qed

lemma run_ok:
  "pool_ok n P cfg \<Longrightarrow> run n sched cfg = Some cfg' \<Longrightarrow> pool_ok n P cfg'"
proof (induction sched arbitrary: cfg)
  case Nil
  then show ?case by simp
next
  case (Cons ev sched)
  from Cons.prems(2) obtain c where c: "step n ev cfg = Some c" "run n sched c = Some cfg'"
    by (auto split: option.splits)
  from step_ok[OF Cons.prems(1) c(1)] Cons.IH c(2) show ?case by blast
qed

lemma runConcurrent_ok:
  "pool_ok n (filter (\<lambda>a. status a = pending) store) (runConcurrent n store)"
  unfolding runConcurrent_def
  by (rule loop_head_ok) (simp add: pool_inv_def)


lemma fill_shouldStop: "shouldStop (fill n q cfg) = shouldStop cfg"
  by (induction n q cfg rule: fill.induct) (simp_all add: Let_def begin_fields)

lemma loop_head_shouldStop: "shouldStop (loop_head n cfg) = shouldStop cfg"
  by (simp add: loop_head_def Let_def fill_shouldStop)

lemma step_shouldStop:
  "step n ev cfg = Some cfg' \<Longrightarrow> ev \<noteq> RequestStop \<Longrightarrow> shouldStop cfg' = shouldStop cfg"
  by (cases ev)
     (auto simp: result_fields set_phase_fields loop_head_shouldStop
           split: if_splits loop_state.splits)

lemma run_shouldStop:
  "run n sched cfg = Some cfg' \<Longrightarrow> RequestStop \<notin> set sched \<Longrightarrow> shouldStop cfg' = shouldStop cfg"
proof (induction sched arbitrary: cfg)
  case Nil
  then show ?case by simp
next
  case (Cons ev sched)
  from Cons.prems(1) obtain c where c: "step n ev cfg = Some c" "run n sched c = Some cfg'"
    by (auto split: option.splits)
  from Cons.prems(2) have ne: "ev \<noteq> RequestStop" "RequestStop \<notin> set sched" by auto
  from step_shouldStop[OF c(1) ne(1)] have "shouldStop c = shouldStop cfg" .
  moreover from Cons.IH[OF c(2) ne(2)] have "shouldStop cfg' = shouldStop c" .
  ultimately show ?case by simp
qed

lemma in_flight_le_running:
  assumes "pool_inv n P q cfg"
  shows "in_flight cfg \<le> length (running cfg)"
proof -
  let ?A = "{i. i < length (tasks cfg) \<and>
                (t_phase (tasks cfg ! i) = Registering \<or> t_phase (tasks cfg ! i) = Importing)}"
  let ?B = "{i. i < length (tasks cfg) \<and> t_phase (tasks cfg ! i) \<noteq> Resolved}"
  have "in_flight cfg = card ?A"
    by (simp add: in_flight_def length_filter_conv_card)
  also have "\<dots> \<le> card ?B"
    by (rule card_mono) auto
  finally have le: "in_flight cfg \<le> card ?B" .
  have "distinct (running cfg)" "set (running cfg) = ?B"
    using assms by (simp_all add: pool_inv_def)
  then have "card ?B = length (running cfg)" by (metis distinct_card)
  with le show ?thesis by simp
qed

text \<open>
  C2. After any schedule of events from the start of \<^verbatim>\<open>runConcurrent\<close> with limit \<open>n\<close>
  over the pending accounts of a store, at most \<open>n\<close> tasks are in flight; and when the
  loop has returned and the schedule holds no stop request, the queue is empty, a task
  was created for every pending account, in order, and every task has completed (its
  callback has run). Within a synchronous stretch of the loop the tasks in flight only
  grow, so the bound at its end covers it.
\<close>

theorem runConcurrent_bounded:
  assumes "run n sched (runConcurrent n store) = Some cfg"
  shows "in_flight cfg \<le> n \<and>
         (loop_at cfg = Exited \<and> RequestStop \<notin> set sched \<longrightarrow>
            queue cfg = [] \<and>
            map t_account (tasks cfg) = filter (\<lambda>a. status a = pending) store \<and>
            (\<forall>t \<in> set (tasks cfg). t_phase t = Resolved))"
proof -
  let ?P = "filter (\<lambda>a. status a = pending) store"
  have ok: "pool_ok n ?P cfg"
    using run_ok[OF runConcurrent_ok assms] .
  then have inv: "pool_inv n ?P (queue cfg) cfg" by (simp add: pool_ok_def)
  have bound: "in_flight cfg \<le> n"
    using in_flight_le_running[OF inv] inv by (simp add: pool_inv_def)
  have "queue cfg = [] \<and> map t_account (tasks cfg) = ?P \<and>
        (\<forall>t \<in> set (tasks cfg). t_phase t = Resolved)"
    if ex: "loop_at cfg = Exited" and ns: "RequestStop \<notin> set sched"
  proof -
    have "shouldStop (runConcurrent n store) = False"
      by (simp add: runConcurrent_def loop_head_shouldStop)
    with run_shouldStop[OF assms ns] have "\<not> shouldStop cfg" by simp
    with ok ex have e: "queue cfg = []" "running cfg = []" by (simp_all add: pool_ok_def)
    from inv e have all: "{i. i < length (tasks cfg) \<and> t_phase (tasks cfg ! i) \<noteq> Resolved} = {}"
      and acc: "map t_account (tasks cfg) = ?P"
      by (simp_all add: pool_inv_def)
    have "\<forall>t \<in> set (tasks cfg). t_phase t = Resolved"
    proof
      fix t assume "t \<in> set (tasks cfg)"
      then obtain i where "i < length (tasks cfg)" "tasks cfg ! i = t"
        by (auto simp: in_set_conv_nth)
      with all show "t_phase t = Resolved" by auto
    qed
    with e acc show ?thesis by simp
  qed
  with bound show ?thesis by blast
qed


lemma stop_frame_refl: "shouldStop cfg \<Longrightarrow> stop_frame cfg cfg"
  by (simp add: stop_frame_def)

lemma stop_frame_trans:
  "stop_frame a b \<Longrightarrow> stop_frame b c \<Longrightarrow> stop_frame a c"
  unfolding stop_frame_def by (auto intro: order_trans)

lemma update_not_registering:
  assumes "u_status u \<noteq> Some registering" "k < length accs"
    "status (updateAccountStatus i u accs ! k) = registering"
  shows "status (accs ! k) = registering"
  using assms
  by (auto simp: updateAccountStatus_def spread_def split: if_splits option.splits)

lemma stop_frame_set_phase:
  assumes "shouldStop cfg" "tid < length (tasks cfg)"
    "phase_rank (t_phase (tasks cfg ! tid)) \<le> phase_rank ph"
  shows "stop_frame cfg (set_phase tid ph cfg)"
  using assms by (auto simp: stop_frame_def set_phase_fields set_phase_nth)

lemma result_not_registering: "u_status (result_updates reply) \<noteq> Some registering"
  by (cases reply) (simp_all add: no_updates_def)

lemma result_rank: "phase_rank Registering \<le> phase_rank (result_phase reply)"
  by simp

lemma step_stop_frame:
  assumes "shouldStop cfg" "step n ev cfg = Some cfg'"
  shows "stop_frame cfg cfg'"
proof (cases ev)
  case (AutoRegisterSettles tid reply)
  with assms(2) have ph: "phase_of cfg tid = Some Registering"
    and cfg': "cfg' = registerSingleAccount_result tid reply cfg"
    by (simp_all split: if_splits)
  define accs where "accs = updateAccountStatus (id (t_account (tasks cfg ! tid)))
                             (result_updates reply) (accounts cfg)"
  have c: "cfg' = set_phase tid (result_phase reply) (cfg \<lparr> accounts := accs \<rparr>)"
    by (simp add: cfg' registerSingleAccount_result_def accs_def)
  have acc: "\<forall>k < length (accounts cfg).
        status (accs ! k) = registering \<longrightarrow> status (accounts cfg ! k) = registering"
    unfolding accs_def using update_not_registering[OF result_not_registering] by blast
  have len: "length accs = length (accounts cfg)"
    by (simp add: accs_def updateAccountStatus_def)
  have tid: "tid < length (tasks cfg)" "t_phase (tasks cfg ! tid) = Registering"
    using ph by (simp_all add: phase_of_Some)
  show ?thesis
    unfolding stop_frame_def c
    using assms(1) acc len tid
    by (auto simp: set_phase_fields set_phase_nth)
next
  case (ImportSettles tid)
  with assms(2) have ph: "phase_of cfg tid = Some Importing"
    and cfg': "cfg' = set_phase tid Settled cfg"
    by (simp_all split: if_splits)
  have "tid < length (tasks cfg)" "t_phase (tasks cfg ! tid) = Importing"
    using ph by (simp_all add: phase_of_Some)
  then show ?thesis unfolding cfg' using assms(1) by (intro stop_frame_set_phase) simp_all
next
  case (ThenCallback tid)
  with assms(2) have ph: "phase_of cfg tid = Some Settled"
    and cfg': "cfg' = set_phase tid Resolved (cfg \<lparr> running := remove1 tid (running cfg) \<rparr>)"
    by (simp_all split: if_splits)
  have tid: "tid < length (tasks cfg)" "t_phase (tasks cfg ! tid) = Settled"
    using ph by (simp_all add: phase_of_Some)
  show ?thesis
    unfolding stop_frame_def cfg'
    using assms(1) tid
    by (auto simp: set_phase_fields set_phase_nth)
next
  case Resume
  with assms(2) have "cfg' = loop_head n cfg" by (simp split: loop_state.splits if_splits)
  with assms(1) have "cfg' = cfg \<lparr> loop_at := Exited \<rparr>" by (simp add: loop_head_def)
  then show ?thesis using assms(1) by (simp add: stop_frame_def)
next
  case RequestStop
  with assms(2) have "cfg' = cfg \<lparr> shouldStop := True \<rparr>" by simp
  then show ?thesis by (simp add: stop_frame_def)
qed

lemma run_stop_frame:
  "shouldStop cfg \<Longrightarrow> run n sched cfg = Some cfg' \<Longrightarrow> stop_frame cfg cfg'"
proof (induction sched arbitrary: cfg)
  case Nil
  then show ?case by (simp add: stop_frame_refl)
next
  case (Cons ev sched)
  from Cons.prems(2) obtain c where c: "step n ev cfg = Some c" "run n sched c = Some cfg'"
    by (auto split: option.splits)
  from step_stop_frame[OF Cons.prems(1) c(1)] have f: "stop_frame cfg c" .
  then have "shouldStop c" by (simp add: stop_frame_def)
  from Cons.IH[OF this c(2)] f show ?case by (rule stop_frame_trans[rotated])
qed

lemma task_completes:
  assumes "phase_of cfg tid = Some Registering"
  shows "\<exists>c. run n (task_events tid reply) cfg = Some c \<and>
             phase_of c tid = Some Resolved \<and>
             accounts c = updateAccountStatus (id (t_account (tasks cfg ! tid)))
                            (result_updates reply) (accounts cfg) \<and>
             run n (task_events tid reply) (cfg \<lparr> shouldStop := b \<rparr>) = Some (c \<lparr> shouldStop := b \<rparr>)"
proof -
  have tid: "tid < length (tasks cfg)" "t_phase (tasks cfg ! tid) = Registering"
    using assms by (simp_all add: phase_of_Some)
  show ?thesis
  proof (cases "result_phase reply = Importing")
    case True
    then show ?thesis
      using tid
      by (simp add: task_events_def phase_of_def registerSingleAccount_result_def set_phase_def)
  next
    case False
    then have "result_phase reply = Settled" by (cases reply) (simp_all split: if_splits)
    then show ?thesis
      using tid
      by (simp add: task_events_def phase_of_def registerSingleAccount_result_def set_phase_def)
  qed
qed

lemma import_completes:
  assumes "phase_of cfg tid = Some Importing"
  shows "\<exists>c. run n (import_events tid) cfg = Some c \<and>
             phase_of c tid = Some Resolved \<and> accounts c = accounts cfg \<and>
             run n (import_events tid) (cfg \<lparr> shouldStop := b \<rparr>) = Some (c \<lparr> shouldStop := b \<rparr>)"
proof -
  have tid: "tid < length (tasks cfg)" "t_phase (tasks cfg ! tid) = Importing"
    using assms by (simp_all add: phase_of_Some)
  then show ?thesis
    by (simp add: import_events_def phase_of_def set_phase_def)
qed

text \<open>
  C3. From a state in which the stop flag is set, whatever events follow in the run:
  \<^item> the flag stays set, no task is created and the queue keeps its accounts, no account
    becomes \<^verbatim>\<open>registering\<close>, and no task is dropped or set back (\<open>stop_frame\<close>);
  \<^item> a call of \<^verbatim>\<open>registerSingleAccount\<close> returns at its first line: the store is as it
    was and the promise of the call is already settled, so \<^verbatim>\<open>autoRegisterAWS\<close> is not
    called for it;
  \<^item> a task that awaits \<^verbatim>\<open>autoRegisterAWS\<close> runs to its end whatever the reply is: its
    events are enabled one after the other and take it to \<open>Resolved\<close>, the store receives
    the update that the reply calls for, and the same events do the same, flag apart,
    from the state with the flag cleared; likewise for a task that awaits
    \<^verbatim>\<open>importWithSsoToken\<close>.
\<close>

theorem stop_suppresses_new_tasks:
  assumes "shouldStop cfg" "run n sched cfg = Some cfg'"
  shows "stop_frame cfg cfg' \<and>
         (\<forall>account.
            registerSingleAccount_begin account cfg' =
              cfg' \<lparr> tasks := tasks cfg' @ [\<lparr> t_account = account, t_phase = Settled \<rparr>] \<rparr>) \<and>
         (\<forall>tid reply. phase_of cfg' tid = Some Registering \<longrightarrow>
            (\<exists>c. run n (task_events tid reply) cfg' = Some c \<and>
                 phase_of c tid = Some Resolved \<and>
                 accounts c = updateAccountStatus (id (t_account (tasks cfg' ! tid)))
                                (result_updates reply) (accounts cfg') \<and>
                 run n (task_events tid reply) (cfg' \<lparr> shouldStop := False \<rparr>) =
                   Some (c \<lparr> shouldStop := False \<rparr>))) \<and>
         (\<forall>tid. phase_of cfg' tid = Some Importing \<longrightarrow>
            (\<exists>c. run n (import_events tid) cfg' = Some c \<and>
                 phase_of c tid = Some Resolved \<and> accounts c = accounts cfg' \<and>
                 run n (import_events tid) (cfg' \<lparr> shouldStop := False \<rparr>) =
                   Some (c \<lparr> shouldStop := False \<rparr>)))"
proof -
  have f: "stop_frame cfg cfg'" using run_stop_frame[OF assms] .
  then have "shouldStop cfg'" by (simp add: stop_frame_def)
  then have b: "\<forall>account.
            registerSingleAccount_begin account cfg' =
              cfg' \<lparr> tasks := tasks cfg' @ [\<lparr> t_account = account, t_phase = Settled \<rparr>] \<rparr>"
    by (simp add: registerSingleAccount_begin_def)
  show ?thesis
    using f b task_completes[of cfg' _ n _ False] import_completes[of cfg' _ n False]
    by blast
qed


lemmas pool_eval = runConcurrent_def loop_head_def Let_def registerSingleAccount_begin_def
  registerSingleAccount_result_def set_phase_def phase_of_def updateAccountStatus_def spread_def
  only_status_def no_updates_def got_token_def five_accounts_def pending_account_def
  five_schedule_def reply_ok_def reply_failed_def js_def

lemma five_run:
  "(case run 2 five_schedule (runConcurrent 2 five_accounts) of
      None \<Rightarrow> False
    | Some cfg \<Rightarrow> loop_at cfg = Exited \<and> map status (accounts cfg) = [success, failed, failed, failed, success])"
  by (simp add: pool_eval)

theorem runConcurrent_bounded_witness:
  "\<exists>cfg. run 2 five_schedule (runConcurrent 2 five_accounts) = Some cfg \<and>
         loop_at cfg = Exited \<and> RequestStop \<notin> set five_schedule \<and>
         in_flight cfg \<le> 2 \<and> queue cfg = [] \<and>
         map t_account (tasks cfg) = five_accounts \<and>
         list_all (\<lambda>t. t_phase t = Resolved) (tasks cfg)"
proof -
  from five_run obtain cfg where
    r: "run 2 five_schedule (runConcurrent 2 five_accounts) = Some cfg" and e: "loop_at cfg = Exited"
    by (auto split: option.splits)
  have ns: "RequestStop \<notin> set five_schedule" by (simp add: five_schedule_def)
  have p: "filter (\<lambda>a. status a = pending) five_accounts = five_accounts"
    by (simp add: five_accounts_def pending_account_def)
  from runConcurrent_bounded[OF r] e ns p r show ?thesis
    by (auto simp: list_all_iff)
qed

lemma stop_run:
  "(case run 1 [RequestStop] (runConcurrent 1 (take 2 five_accounts)) of
      None \<Rightarrow> False
    | Some cfg \<Rightarrow> shouldStop cfg \<and> length (queue cfg) = 1 \<and> length (tasks cfg) = 1 \<and>
        map status (accounts cfg) = [registering, pending] \<and>
        (case run 1 stop_schedule cfg of
           None \<Rightarrow> False
         | Some cfg' \<Rightarrow> loop_at cfg' = Exited \<and> map status (accounts cfg') = [failed, pending]))"
  by (simp add: pool_eval stop_schedule_def)

theorem stop_suppresses_new_tasks_witness:
  "\<exists>cfg cfg'. run 1 [RequestStop] (runConcurrent 1 (take 2 five_accounts)) = Some cfg \<and>
     shouldStop cfg \<and> run 1 stop_schedule cfg = Some cfg' \<and> loop_at cfg' = Exited \<and>
     length (queue cfg') = 1 \<and> length (tasks cfg') = 1 \<and>
     map status (accounts cfg) = [registering, pending] \<and>
     map status (accounts cfg') = [failed, pending]"
proof -
  from stop_run obtain cfg where
    r: "run 1 [RequestStop] (runConcurrent 1 (take 2 five_accounts)) = Some cfg"
    and c: "shouldStop cfg" "length (queue cfg) = 1" "length (tasks cfg) = 1"
      "map status (accounts cfg) = [registering, pending]"
    and r': "(case run 1 stop_schedule cfg of None \<Rightarrow> False
              | Some cfg' \<Rightarrow> loop_at cfg' = Exited \<and> map status (accounts cfg') = [failed, pending])"
    by (auto split: option.splits)
  from r' obtain cfg' where r2: "run 1 stop_schedule cfg = Some cfg'"
    and e: "loop_at cfg' = Exited" "map status (accounts cfg') = [failed, pending]"
    by (auto split: option.splits)
  from stop_suppresses_new_tasks[OF c(1) r2] have f: "stop_frame cfg cfg'" by (rule conjunct1)
  then have l: "length (queue cfg') = 1" "length (tasks cfg') = 1"
    using c by (simp_all add: stop_frame_def)
  show ?thesis
    by (rule exI[of _ cfg], rule exI[of _ cfg'], intro conjI) (rule r c r2 e l)+
qed

section \<open>Properties of the registration orchestrator\<close>


































































lemmas prog_defs = ret_def throw_def bind_def seq_def try_catch_def ask_def await_def
  await_done_def await_bool_def await_text_def or_false_def best_effort_def attempt_def
  require_def modify_def get_def pause_def

lemmas run_defs = autoRegisterAWS_def register_body_def until_classified_def after_classified_def
  finish_def resolve_email_def create_mailbox_def open_page_def submit_email_def classify_def
  register_flow_def enter_code_def dismiss_dialog_def close_browser_def sso_exchange_def
  cleanup_mailbox_def on_error_def test_login_detection_def login_flow_def
  login_password_step_def login_code_step_def login_new_password_step_def
  initial_world_def falsy_str_def nameInputSelectors_def codeInputSelectors_def
  find_code_input.simps[of 0] harvest_token.simps[of 0]
  find_password_inputs.simps[of 0 "(None, None)"]

lemma js_nonempty: "js (c # cs) \<noteq> []"
  by (simp add: js_def)





text \<open>The fallback of the classifier.\<close>

lemma ex_bool: "\<exists>b. \<not> b" "\<exists>b::bool. b"
  by blast+

lemma or_false_run:
  "\<exists>b. fst (or_false c w) = Inr b \<and> trace (snd (or_false c w)) = trace w @ [c] \<and>
       script (snd (or_false c w)) = tl (script w) \<and>
       (b \<longleftrightarrow> (\<exists>rs. script w = Bool True # rs))"
proof (cases "script w")
  case Nil
  then show ?thesis by (simp add: or_false_def bind_def ask_def ret_def ex_bool)
next
  case (Cons r rs)
  then show ?thesis
    by (cases r) (simp_all add: or_false_def bind_def ask_def ret_def ex_bool)
qed

lemma any_visible_run:
  "\<exists>b k. k \<le> length ss \<and> fst (any_visible ss w) = Inr b \<and>
         trace (snd (any_visible ss w)) = trace w @ map IsVisible (take k ss) \<and>
         (\<not> b \<longrightarrow> k = length ss \<and> script (snd (any_visible ss w)) = drop k (script w)) \<and>
         (Bool True \<notin> set (take (length ss) (script w)) \<longrightarrow> \<not> b)"
proof (induction ss arbitrary: w)
  case Nil
  show ?case by (simp add: ret_def ex_bool)
next
  case (Cons s ss)
  obtain r1 w1 where o: "or_false (IsVisible s) w = (r1, w1)"
    by (cases "or_false (IsVisible s) w")
  from or_false_run[of "IsVisible s" w] o obtain b1 where
    b1: "r1 = Inr b1" "trace w1 = trace w @ [IsVisible s]" "script w1 = tl (script w)"
        "b1 \<longleftrightarrow> (\<exists>rs. script w = Bool True # rs)"
    by auto
  show ?case
  proof (cases b1)
    case True
    with o b1 have "any_visible (s # ss) w = (Inr True, w1)"
      by (simp add: bind_def ret_def)
    moreover from True b1(4) have "Bool True \<in> set (take (length (s # ss)) (script w))"
      by auto
    ultimately show ?thesis using b1(2) by (intro exI[of _ True] exI[of _ 1]) simp
  next
    case False
    with o b1 have step: "any_visible (s # ss) w = any_visible ss w1"
      by (simp add: bind_def)
    from Cons.IH[of w1] obtain b k where
      ih: "k \<le> length ss" "fst (any_visible ss w1) = Inr b"
          "trace (snd (any_visible ss w1)) = trace w1 @ map IsVisible (take k ss)"
          "\<not> b \<longrightarrow> k = length ss \<and> script (snd (any_visible ss w1)) = drop k (script w1)"
          "Bool True \<notin> set (take (length ss) (script w1)) \<longrightarrow> \<not> b"
      by blast
    have tl: "set (take (length ss) (tl (script w))) \<subseteq> set (take (Suc (length ss)) (script w))"
      by (cases "script w") auto
    show ?thesis
      using ih b1(2,3) step tl
      by (intro exI[of _ b] exI[of _ "Suc k"]) (auto simp: drop_Suc)
  qed
qed

lemma length_nameInputSelectors: "length nameInputSelectors = 7"
  by (simp add: nameInputSelectors_def)

lemma probe_calls_name: "k \<le> 7 \<Longrightarrow> map IsVisible (take k nameInputSelectors) = take k probe_calls"
  unfolding probe_calls_def by (simp add: take_map length_nameInputSelectors)

lemma probe_calls_8:
  "map IsVisible nameInputSelectors @ [IsVisible LoginHeading] = take 8 probe_calls"
  by (simp add: probe_calls_def nameInputSelectors_def)

lemma probe_calls_9:
  "map IsVisible nameInputSelectors @ [IsVisible LoginHeading, IsVisible EnterPassword] = probe_calls"
  by (simp add: probe_calls_def nameInputSelectors_def)

lemma take_9_probe_calls: "take 9 probe_calls = probe_calls"
  by (simp add: probe_calls_def nameInputSelectors_def)

lemma drop_head_in_take:
  assumes "drop k xs = x # rs" "k < n"
  shows "x \<in> set (take n xs)"
proof -
  have len: "k < length xs"
  proof (rule ccontr)
    assume "\<not> k < length xs"
    then have "drop k xs = []" by simp
    with assms(1) show False by simp
  qed
  have "xs ! k = hd (drop k xs)" using len by (simp add: hd_drop_conv_nth)
  with assms(1) have x: "xs ! k = x" by simp
  have "take n xs ! k = x" "k < length (take n xs)" using x len assms(2) by simp_all
  then show ?thesis by (metis nth_mem)
qed

lemma probe_sequentially_run:
  "\<exists>b k. k \<le> 9 \<and> fst (probe_sequentially w) = Inr b \<and>
         trace (snd (probe_sequentially w)) = trace w @ take k probe_calls \<and>
         (Bool True \<notin> set (take 9 (script w)) \<longrightarrow> \<not> b \<and> k = 9)"
proof -
  obtain r1 w1 where a: "any_visible nameInputSelectors w = (r1, w1)"
    by (cases "any_visible nameInputSelectors w")
  from any_visible_run[of nameInputSelectors w] a length_nameInputSelectors obtain b1 k1 where
    n: "k1 \<le> 7" "r1 = Inr b1" "trace w1 = trace w @ map IsVisible (take k1 nameInputSelectors)"
       "\<not> b1 \<longrightarrow> k1 = 7 \<and> script w1 = drop 7 (script w)"
       "Bool True \<notin> set (take 7 (script w)) \<longrightarrow> \<not> b1"
    by auto
  have sub7: "set (take 7 (script w)) \<subseteq> set (take 9 (script w))"
    by (rule set_take_subset_set_take) simp
  show ?thesis
  proof (cases b1)
    case True
    with a n have "probe_sequentially w = (Inr False, w1)"
      by (simp add: probe_sequentially_def bind_def ret_def)
    then show ?thesis
      using n True sub7 probe_calls_name[of k1]
      by (intro exI[of _ False] exI[of _ k1]) auto
  next
    case False
    with n have k1: "k1 = 7" and s1: "script w1 = drop 7 (script w)" by simp_all
    from n(3) k1 length_nameInputSelectors
    have t1: "trace w1 = trace w @ map IsVisible nameInputSelectors" by simp
    obtain r2 w2 where h: "or_false (IsVisible LoginHeading) w1 = (r2, w2)"
      by (cases "or_false (IsVisible LoginHeading) w1")
    from or_false_run[of "IsVisible LoginHeading" w1] h obtain b2 where
      b2: "r2 = Inr b2" "trace w2 = trace w1 @ [IsVisible LoginHeading]"
          "script w2 = tl (script w1)" "b2 \<longleftrightarrow> (\<exists>rs. script w1 = Bool True # rs)"
      by auto
    have "trace w2 = trace w @ map IsVisible nameInputSelectors @ [IsVisible LoginHeading]"
      using b2(2) t1 by simp
    then have t2: "trace w2 = trace w @ take 8 probe_calls"
      by (simp only: probe_calls_8)
    show ?thesis
    proof (cases b2)
      case True
      with a n False h b2 have "probe_sequentially w = (Inr True, w2)"
        by (simp add: probe_sequentially_def bind_def ret_def)
      moreover have "Bool True \<in> set (take 9 (script w))"
      proof -
        from True b2(4) s1 obtain rs where "drop 7 (script w) = Bool True # rs" by auto
        then show ?thesis by (rule drop_head_in_take) simp
      qed
      ultimately show ?thesis using t2 by (intro exI[of _ True] exI[of _ 8]) simp
    next
      case b2F: False
      obtain r3 w3 where pw: "or_false (IsVisible EnterPassword) w2 = (r3, w3)"
        by (cases "or_false (IsVisible EnterPassword) w2")
      from or_false_run[of "IsVisible EnterPassword" w2] pw obtain b3 where
        b3: "r3 = Inr b3" "trace w3 = trace w2 @ [IsVisible EnterPassword]"
            "b3 \<longleftrightarrow> (\<exists>rs. script w2 = Bool True # rs)"
        by auto
      have "trace w3 = trace w @ map IsVisible nameInputSelectors @
                                 [IsVisible LoginHeading, IsVisible EnterPassword]"
        using b3(2) b2(2) t1 by simp
      then have t3: "trace w3 = trace w @ take 9 probe_calls"
        by (simp only: probe_calls_9 take_9_probe_calls)
      have res: "probe_sequentially w = (Inr b3, w3)"
        using a n False h b2 b2F pw b3
        by (simp add: probe_sequentially_def bind_def ret_def)
      have "b3 \<longrightarrow> Bool True \<in> set (take 9 (script w))"
      proof
        assume b3
        with b3(3) obtain rs where "script w2 = Bool True # rs" by auto
        moreover have "drop (Suc 7) (script w) = tl (drop 7 (script w))"
          by (simp only: drop_Suc tl_drop)
        ultimately have "drop 8 (script w) = Bool True # rs"
          using b2(3) s1 by simp
        then show "Bool True \<in> set (take 9 (script w))"
          by (rule drop_head_in_take) simp
      qed
      then show ?thesis using res t3 by (intro exI[of _ b3] exI[of _ 9]) auto
    qed
  qed
qed

lemma fallback_returns: "\<exists>b. fst (try_catch probe_sequentially (\<lambda>_. ret False) w) = Inr b"
proof -
  from probe_sequentially_run[of w] obtain b where "fst (probe_sequentially w) = Inr b"
    by blast
  then show ?thesis
    by (cases "probe_sequentially w") (simp add: try_catch_def)
qed

lemma classify_returns: "\<exists>b. fst (classify w) = Inr b"
proof (cases "script w")
  case Nil
  then show ?thesis
    using fallback_returns[of "w \<lparr> trace := trace w @ [RaceDetectors] \<rparr>"]
    by (simp add: classify_def bind_def ask_def)
next
  case (Cons r rs)
  let ?w1 = "w \<lparr> script := rs, trace := trace w @ [RaceDetectors] \<rparr>"
  note fb = fallback_returns[of ?w1]
  show ?thesis
  proof (cases r)
    case (Raced l)
    with Cons show ?thesis
      by (cases l) (simp_all add: classify_def bind_def ask_def ret_def ex_bool)
  qed (use Cons fb in \<open>simp_all add: classify_def bind_def ask_def\<close>)
qed

lemma classify_rejected:
  assumes "script w = Throws e # rs"
  shows "\<exists>b k. k \<le> 9 \<and> fst (classify w) = Inr b \<and>
           trace (snd (classify w)) = trace w @ RaceDetectors # take k probe_calls \<and>
           (Bool True \<notin> set (take 9 rs) \<longrightarrow> \<not> b \<and> k = 9)"
proof -
  let ?w1 = "w \<lparr> script := rs, trace := trace w @ [RaceDetectors] \<rparr>"
  from probe_sequentially_run[of ?w1] obtain b k where
    p: "k \<le> 9" "fst (probe_sequentially ?w1) = Inr b"
       "trace (snd (probe_sequentially ?w1)) = trace ?w1 @ take k probe_calls"
       "Bool True \<notin> set (take 9 (script ?w1)) \<longrightarrow> \<not> b \<and> k = 9"
    by blast
  have "classify w = try_catch probe_sequentially (\<lambda>_. ret False) ?w1"
    using assms by (simp add: classify_def bind_def ask_def)
  also have "\<dots> = probe_sequentially ?w1"
    using p(2) by (cases "probe_sequentially ?w1") (simp add: try_catch_def)
  finally show ?thesis using p by (intro exI[of _ b] exI[of _ k]) simp
qed

text \<open>
  C7. The classifier never throws: whatever the page answers, it returns a value of
  \<^verbatim>\<open>isLoginFlow\<close>. When the race of the detectors rejects (none of them resolved
  within the timeout), the calls that follow are visibility probes of the same selectors,
  one after the other in the order of the source (the seven name inputs, the login
  heading, the login password field), up to the first that is visible; and when none of
  them is visible all nine are probed and the flow is classified as registration.
\<close>

theorem classify_fallback:
  "(\<exists>b. fst (classify w) = Inr b) \<and>
   (\<forall>e rs. script w = Throws e # rs \<longrightarrow>
      (\<exists>k \<le> 9. trace (snd (classify w)) = trace w @ RaceDetectors # take k probe_calls) \<and>
      (Bool True \<notin> set (take 9 rs) \<longrightarrow>
         fst (classify w) = Inr False \<and>
         trace (snd (classify w)) = trace w @ RaceDetectors # probe_calls))"
proof (intro conjI allI impI)
  show "\<exists>b. fst (classify w) = Inr b" by (rule classify_returns)
next
  fix e rs assume s: "script w = Throws e # rs"
  from classify_rejected[OF s] show
    "\<exists>k \<le> 9. trace (snd (classify w)) = trace w @ RaceDetectors # take k probe_calls"
    by blast
next
  fix e rs assume s: "script w = Throws e # rs" and n: "Bool True \<notin> set (take 9 rs)"
  from classify_rejected[OF s] n take_9_probe_calls
  show "fst (classify w) = Inr False" by auto
next
  fix e rs assume s: "script w = Throws e # rs" and n: "Bool True \<notin> set (take 9 rs)"
  from classify_rejected[OF s] n take_9_probe_calls
  show "trace (snd (classify w)) = trace w @ RaceDetectors # probe_calls" by auto
qed

theorem classify_fallback_witness:
  "script fallback_world = [Throws (js ''Timeout 10000ms exceeded'')] \<and>
   fst (classify fallback_world) = Inr False \<and>
   trace (snd (classify fallback_world)) = RaceDetectors # probe_calls"
proof -
  have s: "script fallback_world = Throws (js ''Timeout 10000ms exceeded'') # []"
    and t: "trace fallback_world = []"
    by (simp_all add: fallback_world_def initial_world_def)
  from classify_fallback[of fallback_world] s t show ?thesis by simp
qed

text \<open>The mailbox of a run.\<close>

lemma pick_sample: "pick_password_inputs password_inputs 0 (None, None) = (Some 0, Some 1)"
  by (simp add: password_inputs_def CONFIRM_KEYWORDS_def js_def js_lower_def or_empty_def)

lemmas registration_defs = run_defs prog_defs js_nonempty mailbox_params_def
  registration_script_def registration_calls_def sso_refused_def sso_granted_def
  new_mailbox_def pick_sample

text \<open>
  When the SSO exchange grants the tokens, and when it throws, the mailbox is deleted
  once, at the end of the run.
\<close>

lemma mailbox_deleted_on_success:
  "autoRegisterAWS mailbox_params (registration_script (Sso sso_granted) @ [Done]) =
     (Inr (Succeeded \<lparr> c_ssoToken = js ''token'', c_name = js ''Maria Silva'',
                        c_accessToken = Some (js ''access''),
                        c_refreshToken = Some (js ''refresh'') \<rparr>),
      \<lparr> script = [], trace = registration_calls @ [DeleteMailbox (js ''k3v9@mail.example'')],
        browser = False, mailService = True, tempMailbox = Some new_mailbox \<rparr>)"
  by (simp add: registration_defs)

lemma mailbox_deleted_on_exception:
  "autoRegisterAWS mailbox_params (registration_script (Throws (js ''fetch failed'')) @ [Done]) =
     (Inr (Failed (External (js ''fetch failed''))),
      \<lparr> script = [], trace = registration_calls @ [DeleteMailbox (js ''k3v9@mail.example'')],
        browser = False, mailService = True, tempMailbox = Some new_mailbox \<rparr>)"
  by (simp add: registration_defs)

text \<open>
  C1. A run that creates a mailbox, registers the account and obtains the SSO cookie, and
  whose SSO exchange then reports no success: the function returns
  \<^verbatim>\<open>{ success: false, error: ssoResult.error }\<close> from inside the \<^verbatim>\<open>try\<close> block, before
  the clean-up of the mailbox and without entering the \<^verbatim>\<open>catch\<close> block. The run ends
  \<^verbatim>\<open>failed\<close>, the mailbox exists, and \<^verbatim>\<open>deleteMailbox\<close> is not among the calls of the
  run.
\<close>

theorem mailbox_kept_when_sso_refused:
  "autoRegisterAWS mailbox_params (registration_script (Sso sso_refused)) =
     (Inr (Failed (SsoFailed (Some (js ''authorization_pending'')))),
      \<lparr> script = [], trace = registration_calls,
        browser = False, mailService = True, tempMailbox = Some new_mailbox \<rparr>) \<and>
   filter is_delete registration_calls = []"
  by (simp add: registration_defs)


end
